theory Spec2Isabelle
  imports Main "HOL-Library.AList"
begin

section \<open>The MCP server discoverer and merger (discover_and_add_mcp_servers.py)\<close>

text \<open>
  The script builds a mapping from server names to descriptors out of three sources
  (a scan of the executable search path, descriptor files, explicit \<open>--add\<close> entries)
  and optionally merges it into an existing JSON document under the key \<open>mcpServers\<close>.

  The model is a shallow embedding. The file system, the environment and the parsers of
  the two file formats are inputs of the model; every exception the script can raise
  on them is a value of \<open>error\<close>, and a function that can raise returns
  \<open>error + 'a\<close> with \<open>Inl\<close> for the exception. A file that cannot be opened or
  parsed is given to the model as the error it raises (\<open>ParseError\<close> for a text that
  is not YAML or JSON). \<open>OSError\<close> stands for every error of the operating system
  that is none of the three named subclasses.
\<close>

subsection \<open>Values\<close>

text \<open>
  A Python value as the two parsers and the script build it. Dictionary keys are the
  hashable scalars. A dictionary is an association list in insertion order; Python
  dictionaries have distinct keys, and every dictionary the script builds has. Equality
  of these lists implies Python's \<open>==\<close> on the dictionaries, which ignores the order.
  Floating-point numbers and booleans are left out (as keys Python identifies \<open>True\<close>
  with \<open>1\<close>). A string is a list of characters, and a character is a code point
  below 256 (the type \<open>char\<close> has these 256 values); text with other code points is
  outside the model.
\<close>

datatype key = KNone | KInt int | KStr string

datatype json =
    JNone
  | JInt int
  | JStr string
  | JList "json list"
  | JObj "(key \<times> json) list"

type_synonym dict = "(key \<times> json) list"

datatype error =
    FileNotFoundError
  | NotADirectoryError
  | PermissionError
  | OSError
  | ParseError
  | KeyError
  | IndexError
  | TypeError
  | AttributeError

text \<open>Sequencing of two steps either of which may raise.\<close>

definition and_then :: "error + 'a \<Rightarrow> ('a \<Rightarrow> error + 'b) \<Rightarrow> error + 'b" where
  "and_then r f = (case r of Inl e \<Rightarrow> Inl e | Inr x \<Rightarrow> f x)"

subsection \<open>Dictionary operations\<close>

text \<open>\<open>d[k] = v\<close>: an existing key keeps its place, a new key goes to the end.\<close>

primrec setitem :: "key \<Rightarrow> json \<Rightarrow> dict \<Rightarrow> dict" where
  "setitem k v [] = [(k, v)]"
| "setitem k v (p # ps) = (if fst p = k then (k, v) # ps else p # setitem k v ps)"

text \<open>\<open>d.update(other)\<close>: one assignment for each item of \<open>other\<close>, in its order.\<close>

definition dict_update :: "dict \<Rightarrow> dict \<Rightarrow> dict" where
  "dict_update d other = fold (\<lambda>(k, v). setitem k v) other d"

text \<open>\<open>d.setdefault(k, v)\<close>, for its effect on \<open>d\<close>.\<close>

definition setdefault :: "key \<Rightarrow> json \<Rightarrow> dict \<Rightarrow> dict" where
  "setdefault k v d = (case map_of d k of None \<Rightarrow> d @ [(k, v)] | Some _ \<Rightarrow> d)"

subsection \<open>String operations\<close>

text \<open>\<open>s.split(sep)\<close> for a separator of one character: never an empty list.\<close>

fun split_acc :: "char \<Rightarrow> string \<Rightarrow> string \<Rightarrow> string list" where
  "split_acc sep cur [] = [rev cur]"
| "split_acc sep cur (c # cs) =
     (if c = sep then rev cur # split_acc sep [] cs else split_acc sep (c # cur) cs)"

definition split_on :: "char \<Rightarrow> string \<Rightarrow> string list" where
  "split_on sep s = split_acc sep [] s"

text \<open>\<open>s.split(sep, 1)\<close> for a string that contains \<open>sep\<close>: the text before its first
  occurrence and the text after it.\<close>

definition split_first :: "char \<Rightarrow> string \<Rightarrow> string \<times> string" where
  "split_first sep s = (takeWhile (\<lambda>c. c \<noteq> sep) s, drop 1 (dropWhile (\<lambda>c. c \<noteq> sep) s))"

text \<open>The code points below 256 at which \<open>str.split()\<close> splits, those for which
  \<open>str.isspace\<close> holds: 9 to 13, 28 to 32, 133 (next line) and 160 (no-break
  space).\<close>

definition is_space :: "char \<Rightarrow> bool" where
  "is_space c = (c \<in> {CHR 0x09, CHR 0x0A, CHR 0x0B, CHR 0x0C, CHR 0x0D,
                       CHR 0x1C, CHR 0x1D, CHR 0x1E, CHR 0x1F, CHR 0x20,
                       CHR 0x85, CHR 0xA0})"

text \<open>\<open>s.split()\<close>: the maximal runs of characters that are not white space.\<close>

fun words_acc :: "string \<Rightarrow> string \<Rightarrow> string list" where
  "words_acc cur [] = (if cur = [] then [] else [rev cur])"
| "words_acc cur (c # cs) =
     (if is_space c
      then (if cur = [] then words_acc [] cs else rev cur # words_acc [] cs)
      else words_acc (c # cur) cs)"

definition split_ws :: "string \<Rightarrow> string list" where
  "split_ws s = words_acc [] s"

text \<open>\<open>s.replace('-', '_')\<close>.\<close>

definition replace_dash :: "string \<Rightarrow> string" where
  "replace_dash s = map (\<lambda>c. if c = CHR ''-'' then CHR ''_'' else c) s"

definition endswith :: "string \<Rightarrow> string \<Rightarrow> bool" where
  "endswith s suf = (length suf \<le> length s \<and> drop (length s - length suf) s = suf)"

subsection \<open>Descriptors\<close>

text \<open>The dictionary literal that the scanner and the parser of explicit entries build.\<close>

definition local_descriptor :: "string \<Rightarrow> string list \<Rightarrow> string list \<Rightarrow> json" where
  "local_descriptor command args tools =
     JObj [(KStr ''type'', JStr ''local''),
           (KStr ''command'', JStr command),
           (KStr ''args'', JList (map JStr args)),
           (KStr ''tools'', JList (map JStr tools))]"

subsection \<open>parse_add_flags\<close>

text \<open>
  The body of the loop for one item. \<open>command.split()[0]\<close> raises \<open>IndexError\<close> when the
  command has no token.
\<close>

definition parse_item :: "dict \<Rightarrow> string \<Rightarrow> error + dict" where
  "parse_item servers item =
     (if CHR ''='' \<notin> set item then Inr servers
      else
        let (name, rest) = split_first CHR ''='' item;
            (command, tools_list) =
              (if CHR '':'' \<in> set rest
               then let (command, tools) = split_first CHR '':'' rest
                    in (command, if tools \<noteq> ''*'' then split_on CHR '','' tools else [''*''])
               else (rest, [''*'']))
        in case split_ws command of
             [] \<Rightarrow> Inl IndexError
           | c # args \<Rightarrow> Inr (setitem (KStr name) (local_descriptor c args tools_list) servers))"

fun parse_loop :: "string list \<Rightarrow> dict \<Rightarrow> error + dict" where
  "parse_loop [] servers = Inr servers"
| "parse_loop (item # items) servers =
     (case parse_item servers item of
        Inl e \<Rightarrow> Inl e
      | Inr servers' \<Rightarrow> parse_loop items servers')"

definition parse_add_flags :: "string list \<Rightarrow> error + dict" where
  "parse_add_flags add_list = parse_loop add_list []"

subsection \<open>find_binaries\<close>

text \<open>
  What \<open>entry.is_file()\<close> meets when it calls \<open>stat\<close> on an entry: a regular file;
  something else, or nothing (pathlib answers \<open>False\<close> for the errors ENOENT, ENOTDIR,
  EBADF and ELOOP); a refusal (EACCES); or another error of the operating system, such as
  a name that is too long. pathlib raises the last two again.
\<close>

datatype stat_outcome = Regular | NotRegular | StatDenied | StatFails

fun is_file :: "stat_outcome \<Rightarrow> error + bool" where
  "is_file Regular = Inr True"
| "is_file NotRegular = Inr False"
| "is_file StatDenied = Inl PermissionError"
| "is_file StatFails = Inl OSError"

text \<open>
  An entry of a directory carries its file name, what \<open>entry.is_file()\<close> meets and the
  answer of \<open>os.access(entry, os.X_OK)\<close>.
\<close>

record dir_entry =
  entry_name :: string
  entry_stat :: stat_outcome
  entry_x_ok :: bool

text \<open>
  What \<open>Path(p).iterdir()\<close> meets for a string \<open>p\<close> of the search path: nothing of
  that name, something that is not a directory, a directory that may not be read, another
  error of the operating system (a name that is too long, a loop of symbolic links, an
  input/output error), or a directory with its entries.
\<close>

datatype node = Absent | NotDir | Denied | Unlistable | Dir "dir_entry list"

fun iterdir :: "node \<Rightarrow> error + dir_entry list" where
  "iterdir Absent = Inl FileNotFoundError"
| "iterdir NotDir = Inl NotADirectoryError"
| "iterdir Denied = Inl PermissionError"
| "iterdir Unlistable = Inl OSError"
| "iterdir (Dir entries) = Inr entries"

text \<open>
  \<open>NAME_PATTERNS.search(name)\<close> for the pattern \<open>(mcp-server|-mcp|_mcp)$\<close>: without
  the multi-line flag \<open>$\<close> matches at the end of the string and also just before a
  newline that ends the string.
\<close>

definition has_suffix :: "string \<Rightarrow> bool" where
  "has_suffix s = (endswith s ''mcp-server'' \<or> endswith s ''-mcp'' \<or> endswith s ''_mcp'')"

definition name_matches :: "string \<Rightarrow> bool" where
  "name_matches nm =
     (has_suffix nm \<or> (nm \<noteq> [] \<and> last nm = CHR 0x0A \<and> has_suffix (butlast nm)))"

text \<open>\<open>name.rfind('.')\<close>: the last index of a dot, or \<open>-1\<close>.\<close>

definition rfind_dot :: "string \<Rightarrow> int" where
  "rfind_dot nm =
     (if CHR ''.'' \<in> set nm
      then int (length nm) - 1 - int (length (takeWhile (\<lambda>c. c \<noteq> CHR ''.'') (rev nm)))
      else - 1)"

text \<open>\<open>entry.stem\<close> as pathlib computes it from the last dot of the name (a dot at
  the start or at the end of the name does not begin an extension).\<close>

definition stem :: "string \<Rightarrow> string" where
  "stem nm =
     (let i = rfind_dot nm
      in if 0 < i \<and> i < int (length nm) - 1 then take (nat i) nm else nm)"

text \<open>
  \<open>str(entry)\<close> for the entry \<open>Path(p) / name\<close> on a POSIX system: the root of \<open>p\<close>
  (two leading slashes are kept, one or more than two are one), then the components of
  \<open>p\<close> that are neither empty nor a single dot, then the name, joined by slashes.
\<close>

definition path_root :: "string \<Rightarrow> string" where
  "path_root p =
     (if take 1 p = ''/''
      then (if take 1 (drop 1 p) \<noteq> ''/'' \<or> take 1 (drop 2 p) = ''/'' then ''/'' else ''//'')
      else [])"

definition path_parts :: "string \<Rightarrow> string list" where
  "path_parts p = filter (\<lambda>c. c \<noteq> [] \<and> c \<noteq> ''.'') (split_on CHR ''/'' p)"

fun join_slash :: "string list \<Rightarrow> string" where
  "join_slash [] = []"
| "join_slash [c] = c"
| "join_slash (c # cs) = c @ ''/'' @ join_slash cs"

definition entry_str :: "string \<Rightarrow> string \<Rightarrow> string" where
  "entry_str p nm = path_root p @ join_slash (path_parts p @ [nm])"

text \<open>
  The body of the inner loop, for one entry of the directory \<open>p\<close>: \<open>is_file\<close> may
  raise, and \<open>os.access\<close> is asked only when it answers \<open>True\<close>.
\<close>

definition scan_entry :: "string \<Rightarrow> dict \<Rightarrow> dir_entry \<Rightarrow> error + dict" where
  "scan_entry p servers entry =
     (case is_file (entry_stat entry) of
        Inl e \<Rightarrow> Inl e
      | Inr regular \<Rightarrow>
          Inr (if regular \<and> entry_x_ok entry
               then (if name_matches (entry_name entry)
                     then setitem (KStr (replace_dash (stem (entry_name entry))))
                            (local_descriptor (entry_str p (entry_name entry)) [] [''*''])
                            servers
                     else servers)
               else servers))"

text \<open>
  The inner loop: it ends at the first entry that raises. The mapping is changed in
  place, so what was stored before the exception stays; the result is the mapping and
  the exception, if any.
\<close>

fun scan_dir :: "string \<Rightarrow> dir_entry list \<Rightarrow> dict \<Rightarrow> dict \<times> error option" where
  "scan_dir p [] servers = (servers, None)"
| "scan_dir p (entry # entries) servers =
     (case scan_entry p servers entry of
        Inl e \<Rightarrow> (servers, Some e)
      | Inr servers' \<Rightarrow> scan_dir p entries servers')"

text \<open>
  The outer loop. The \<open>try\<close> block holds \<open>iterdir\<close> and the inner loop, and only
  \<open>FileNotFoundError\<close> is caught: the loop goes on with the next string of the path.
\<close>

fun find_loop :: "(string \<Rightarrow> node) \<Rightarrow> string list \<Rightarrow> dict \<Rightarrow> error + dict" where
  "find_loop fs [] servers = Inr servers"
| "find_loop fs (p # ps) servers =
     (case iterdir (fs p) of
        Inl e \<Rightarrow> (if e = FileNotFoundError then find_loop fs ps servers else Inl e)
      | Inr entries \<Rightarrow>
          (case scan_dir p entries servers of
             (servers', None) \<Rightarrow> find_loop fs ps servers'
           | (servers', Some e) \<Rightarrow>
               (if e = FileNotFoundError then find_loop fs ps servers' else Inl e)))"

text \<open>\<open>path_var\<close> is \<open>os.environ.get("PATH", "")\<close>; \<open>os.pathsep\<close> is the colon.\<close>

definition find_binaries :: "string \<Rightarrow> (string \<Rightarrow> node) \<Rightarrow> error + dict" where
  "find_binaries path_var fs = find_loop fs (split_on CHR '':'' path_var) []"

subsection \<open>load_yaml_descriptors\<close>

text \<open>\<open>data[s]\<close> for a string \<open>s\<close>: only a dictionary can be indexed by a string.\<close>

fun getitem_str :: "json \<Rightarrow> string \<Rightarrow> error + json" where
  "getitem_str (JObj d) s = (case map_of d (KStr s) of None \<Rightarrow> Inl KeyError | Some v \<Rightarrow> Inr v)"
| "getitem_str _ s = Inl TypeError"

text \<open>A value used as a dictionary key: lists and dictionaries are not hashable.\<close>

fun as_key :: "json \<Rightarrow> error + key" where
  "as_key JNone = Inr KNone"
| "as_key (JInt i) = Inr (KInt i)"
| "as_key (JStr s) = Inr (KStr s)"
| "as_key _ = Inl TypeError"

fun items_of :: "json \<Rightarrow> error + dict" where
  "items_of (JObj d) = Inr d"
| "items_of _ = Inl AttributeError"

text \<open>
  The body of the loop for one file: the file is given by what opening it and
  \<open>yaml.safe_load\<close> return.
\<close>

definition load_file :: "dict \<Rightarrow> error + json \<Rightarrow> error + dict" where
  "load_file servers file =
     and_then file (\<lambda>data.
     and_then (getitem_str data ''name'') (\<lambda>name.
     and_then (items_of data) (\<lambda>its.
     and_then (as_key name) (\<lambda>k.
       Inr (setitem k (JObj (filter (\<lambda>(k', v). k' \<noteq> KStr ''name'') its)) servers)))))"

fun load_loop :: "(error + json) list \<Rightarrow> dict \<Rightarrow> error + dict" where
  "load_loop [] servers = Inr servers"
| "load_loop (file # files) servers =
     (case load_file servers file of
        Inl e \<Rightarrow> Inl e
      | Inr servers' \<Rightarrow> load_loop files servers')"

text \<open>
  \<open>base\<close> is \<open>None\<close> when the directory \<open>mcp_servers\<close> does not exist, and otherwise
  the files that \<open>base.glob("*.yaml")\<close> yields, in its order.
\<close>

definition load_yaml_descriptors :: "(error + json) list option \<Rightarrow> error + dict" where
  "load_yaml_descriptors base =
     (case base of None \<Rightarrow> Inr [] | Some files \<Rightarrow> load_loop files [])"

subsection \<open>merge_configs\<close>

text \<open>\<open>container[k] = v\<close>: a dictionary takes any key, a list an index in range.\<close>

fun store_item :: "json \<Rightarrow> key \<Rightarrow> json \<Rightarrow> error + json" where
  "store_item (JObj d) k v = Inr (JObj (setitem k v d))"
| "store_item (JList l) (KInt i) v =
     (let n = int (length l)
      in if - n \<le> i \<and> i < n
         then Inr (JList (l[nat (if i < 0 then i + n else i) := v]))
         else Inl IndexError)"
| "store_item _ k v = Inl TypeError"

text \<open>
  The loop \<open>merged["mcpServers"][name] = cfg\<close>. Python changes the object under the key
  in place; the model stores the changed object back under the key. The copy made by
  \<open>existing.copy()\<close> is shallow, so in Python the caller's document shares that
  object; \<open>main\<close> does not use its document again, and the model gives the value
  returned.
\<close>

fun merge_loop :: "dict \<Rightarrow> dict \<Rightarrow> error + dict" where
  "merge_loop [] merged = Inr merged"
| "merge_loop ((name, cfg) # rest) merged =
     (case map_of merged (KStr ''mcpServers'') of
        None \<Rightarrow> Inl KeyError
      | Some c \<Rightarrow>
          (case store_item c name cfg of
             Inl e \<Rightarrow> Inl e
           | Inr c' \<Rightarrow> merge_loop rest (setitem (KStr ''mcpServers'') c' merged)))"

text \<open>Only a dictionary has both \<open>copy\<close> and \<open>setdefault\<close>.\<close>

definition merge_configs :: "json \<Rightarrow> dict \<Rightarrow> error + json" where
  "merge_configs existing new =
     (case existing of
        JObj d \<Rightarrow>
          (case merge_loop new (setdefault (KStr ''mcpServers'') (JObj []) d) of
             Inl e \<Rightarrow> Inl e
           | Inr merged \<Rightarrow> Inr (JObj merged))
      | _ \<Rightarrow> Inl AttributeError)"

subsection \<open>main\<close>

text \<open>
  What the run reads: the search path and what its strings name, the descriptor
  directory, and for a path of a JSON file \<open>None\<close> when it does not exist and otherwise
  what \<open>json.load\<close> returns. The two arguments are \<open>--merge\<close> and the list of \<open>--add\<close>.
  Writing is not modelled beyond the value written: the run returns what it prints or
  the path and the document it writes.
\<close>

record env =
  env_path :: string
  env_fs :: "string \<Rightarrow> node"
  env_base :: "(error + json) list option"
  env_json :: "string \<Rightarrow> (error + json) option"

record args =
  args_merge :: "string option"
  args_add :: "string list"

datatype outcome = Printed json | Wrote string json

text \<open>Lines 95 to 98 of \<open>main\<close>: the three sources, each written over the one before.\<close>

definition discover :: "env \<Rightarrow> args \<Rightarrow> error + dict" where
  "discover ev ar =
     and_then (find_binaries (env_path ev) (env_fs ev)) (\<lambda>found.
     and_then (load_yaml_descriptors (env_base ev)) (\<lambda>loaded.
     and_then (parse_add_flags (args_add ar)) (\<lambda>added.
       Inr (dict_update (dict_update (dict_update [] found) loaded) added))))"

text \<open>\<open>str(Path(s))\<close> on a POSIX system: the root and the components as for an entry,
  and a single dot when nothing is left.\<close>

definition path_str :: "string \<Rightarrow> string" where
  "path_str s =
     (let r = path_root s @ join_slash (path_parts s) in if r = [] then ''.'' else r)"

text \<open>
  An absent \<open>--merge\<close> and an empty one are both false in \<open>if args.merge\<close>. The file
  is read, written and reported under \<open>path = Path(args.merge)\<close>.
\<close>

definition main :: "env \<Rightarrow> args \<Rightarrow> error + outcome" where
  "main ev ar =
     and_then (discover ev ar) (\<lambda>servers.
       let config = JObj [(KStr ''mcpServers'', JObj servers)]
       in case args_merge ar of
            None \<Rightarrow> Inr (Printed config)
          | Some merge \<Rightarrow>
              if merge = [] then Inr (Printed config)
              else
                let path = path_str merge
                in and_then (case env_json ev path of None \<Rightarrow> Inr (JObj []) | Some r \<Rightarrow> r)
                     (\<lambda>existing.
                   and_then (merge_configs existing servers) (\<lambda>merged.
                     Inr (Wrote path merged))))"

subsection \<open>Notions used in the statements\<close>

text \<open>The command string that \<open>parse_add_flags\<close> binds (line 70 or line 73) for an item
  that contains an equals sign: the text after the first equals sign, up to its first
  colon when it has one.\<close>

definition command_part :: "string \<Rightarrow> string" where
  "command_part item =
     (let rest = snd (split_first CHR ''='' item)
      in if CHR '':'' \<in> set rest then fst (split_first CHR '':'' rest) else rest)"

text \<open>A string that is empty or consists of white space only.\<close>

definition blank :: "string \<Rightarrow> bool" where
  "blank s = list_all is_space s"


text \<open>The assignments of the loop of \<open>merge_configs\<close>, applied in turn to the object
  under the key.\<close>

fun store_all :: "dict \<Rightarrow> json \<Rightarrow> error + json" where
  "store_all [] c = Inr c"
| "store_all ((name, cfg) # rest) c =
     (case store_item c name cfg of Inl e \<Rightarrow> Inl e | Inr c' \<Rightarrow> store_all rest c')"

text \<open>The position that an index denotes in a list of length \<open>n\<close>, and whether the
  key is an index in range.\<close>

definition slot :: "nat \<Rightarrow> key \<Rightarrow> nat" where
  "slot n k = (case k of KInt i \<Rightarrow> nat (if i < 0 then i + int n else i) | _ \<Rightarrow> 0)"

definition index_ok :: "nat \<Rightarrow> key \<Rightarrow> bool" where
  "index_ok n k = (case k of KInt i \<Rightarrow> - int n \<le> i \<and> i < int n | _ \<Rightarrow> False)"

text \<open>The object under the key after \<open>merged.setdefault("mcpServers", {})\<close>.\<close>

definition servers_of :: "dict \<Rightarrow> json" where
  "servers_of d = (case map_of d (KStr ''mcpServers'') of None \<Rightarrow> JObj [] | Some c \<Rightarrow> c)"

text \<open>An entry that the scanner stores (the three tests of the inner loop), the name
  under which it stores it, and the descriptor it stores for the entry of the directory
  \<open>p\<close>.\<close>

definition qualifies :: "dir_entry \<Rightarrow> bool" where
  "qualifies e = (entry_stat e = Regular \<and> entry_x_ok e \<and> name_matches (entry_name e))"

text \<open>An entry that is a regular file, is executable and has a name that ends with one
  of the three suffixes.\<close>

definition ends_with_newline :: "string \<Rightarrow> bool" where
  "ends_with_newline nm = (nm \<noteq> [] \<and> last nm = CHR 0x0A)"

definition eligible :: "dir_entry \<Rightarrow> bool" where
  "eligible e = (entry_stat e = Regular \<and> entry_x_ok e \<and> has_suffix (entry_name e))"

text \<open>The exception that ends the inner loop over the entries, if any: that of the first
  entry for which \<open>is_file\<close> raises. And the exception that the \<open>try\<close> block raises,
  if any, for a string of the search path that names \<open>n\<close>.\<close>

fun first_raise :: "dir_entry list \<Rightarrow> error option" where
  "first_raise [] = None"
| "first_raise (e # es) =
     (case is_file (entry_stat e) of Inl err \<Rightarrow> Some err | Inr regular \<Rightarrow> first_raise es)"

definition try_error :: "node \<Rightarrow> error option" where
  "try_error n = (case iterdir n of Inl e \<Rightarrow> Some e | Inr entries \<Rightarrow> first_raise entries)"

text \<open>The mapping after the \<open>try\<close> block for the string \<open>p\<close> of the search path.\<close>

definition try_servers :: "(string \<Rightarrow> node) \<Rightarrow> string \<Rightarrow> dict \<Rightarrow> dict" where
  "try_servers fs p servers =
     (case iterdir (fs p) of Inl e \<Rightarrow> servers | Inr entries \<Rightarrow> fst (scan_dir p entries servers))"

definition server_name :: "dir_entry \<Rightarrow> key" where
  "server_name e = KStr (replace_dash (stem (entry_name e)))"

definition scanned :: "string \<Rightarrow> dir_entry \<Rightarrow> json" where
  "scanned p e = local_descriptor (entry_str p (entry_name e)) [] [''*'']"

text \<open>A POSIX path is absolute when it begins with a slash.\<close>

definition is_absolute :: "string \<Rightarrow> bool" where
  "is_absolute s = (take 1 s = ''/'')"

text \<open>The list \<open>tools_list\<close> that \<open>parse_add_flags\<close> binds (line 71 or line 73) for an
  item that contains an equals sign.\<close>

definition tools_part :: "string \<Rightarrow> string list" where
  "tools_part item =
     (let rest = snd (split_first CHR ''='' item)
      in if CHR '':'' \<in> set rest
         then (let tools = snd (split_first CHR '':'' rest)
               in if tools \<noteq> ''*'' then split_on CHR '','' tools else [''*''])
         else [''*''])"

text \<open>The descriptor that \<open>load_yaml_descriptors\<close> stores for a document \<open>d\<close>.\<close>

definition without_name :: "dict \<Rightarrow> json" where
  "without_name d = JObj (filter (\<lambda>(k, v). k \<noteq> KStr ''name'') d)"

subsection \<open>Example inputs\<close>

definition fs_example :: "string \<Rightarrow> node" where
  "fs_example p =
     (if p = ''/etc/passwd'' then NotDir
      else if p = ''/opt/bin'' then
        Dir [\<lparr>entry_name = ''github-mcp-server'', entry_stat = Regular, entry_x_ok = True\<rparr>]
      else Absent)"

definition fs_relative :: "string \<Rightarrow> node" where
  "fs_relative p =
     (if p = ''bin'' then
        Dir [\<lparr>entry_name = ''x-mcp'', entry_stat = Regular, entry_x_ok = True\<rparr>]
      else Absent)"

definition fs_denied :: "string \<Rightarrow> node" where
  "fs_denied p =
     (if p = ''/root/bin'' then Denied
      else if p = ''/home/u/bin'' then
        Dir [\<lparr>entry_name = ''a-mcp'', entry_stat = Regular, entry_x_ok = True\<rparr>,
             \<lparr>entry_name = ''locked'', entry_stat = StatDenied, entry_x_ok = False\<rparr>]
      else if p = ''/opt/bin'' then
        Dir [\<lparr>entry_name = ''github-mcp-server'', entry_stat = Regular, entry_x_ok = True\<rparr>]
      else Absent)"

definition doc_example :: json where
  "doc_example =
     JObj [(KStr ''other'', JInt 1),
           (KStr ''mcpServers'', JObj [(KStr ''a'', JStr ''old a''), (KStr ''b'', JStr ''old b'')])]"

definition new_example :: dict where
  "new_example = [(KStr ''b'', JStr ''new b''), (KStr ''c'', JStr ''new c'')]"

definition env_example :: env where
  "env_example =
     \<lparr>env_path = ''/nonexistent:/opt/bin'',
      env_fs = fs_example,
      env_base = Some
        [Inr (JObj [(KStr ''name'', JStr ''github_mcp_server''), (KStr ''type'', JStr ''remote''),
                    (KStr ''url'', JStr ''https://example.org/github'')]),
         Inr (JObj [(KStr ''name'', JStr ''sentry''), (KStr ''type'', JStr ''remote''),
                    (KStr ''url'', JStr ''https://example.org/sentry'')])],
      env_json = (\<lambda>p. if p = ''mcp.json''
         then Some (Inr (JObj [(KStr ''other'', JInt 1),
                (KStr ''mcpServers'',
                 JObj [(KStr ''sentry'', local_descriptor ''old-sentry'' [] [''*'']),
                       (KStr ''legacy'', local_descriptor ''legacy'' [] [''*''])])]))
         else None)\<rparr>"

definition args_example :: args where
  "args_example =
     \<lparr>args_merge = Some ''./mcp.json'', args_add = [''sentry=npx @sentry/mcp-server@latest:*'']\<rparr>"

section \<open>Properties\<close>

subsection \<open>Sequencing\<close>

lemma and_then_Inr [simp]: "and_then (Inr x) f = f x"
  by (simp add: and_then_def)

lemma and_then_Inl [simp]: "and_then (Inl e) f = Inl e"
  by (simp add: and_then_def)

lemma and_then_eq_Inr: "and_then r f = Inr y \<longleftrightarrow> (\<exists>x. r = Inr x \<and> f x = Inr y)"
  by (cases r) auto

subsection \<open>The parser of explicit entries\<close>

lemma words_acc_Nil: "words_acc cur s = [] \<longleftrightarrow> cur = [] \<and> list_all is_space s"
  by (induction s arbitrary: cur) auto

lemma split_ws_Nil: "split_ws s = [] \<longleftrightarrow> blank s"
  by (simp add: split_ws_def blank_def words_acc_Nil)

lemma parse_item_Inl:
  "parse_item servers item = Inl e \<longleftrightarrow>
     e = IndexError \<and> CHR ''='' \<in> set item \<and> blank (command_part item)"
  by (auto simp: parse_item_def command_part_def split_ws_Nil[symmetric] Let_def
           split: prod.splits list.splits if_splits)

lemma parse_loop_Inl:
  "parse_loop items servers = Inl e \<longleftrightarrow>
     e = IndexError \<and> (\<exists>item \<in> set items. CHR ''='' \<in> set item \<and> blank (command_part item))"
proof (induction items arbitrary: servers)
  case Nil
  show ?case by simp
next
  case (Cons item items)
  show ?case
  proof (cases "parse_item servers item")
    case (Inl e')
    then show ?thesis using parse_item_Inl[of servers item e'] by auto
  next
    case (Inr s')
    have "\<not> (CHR ''='' \<in> set item \<and> blank (command_part item))"
      using Inr parse_item_Inl[of servers item IndexError] by auto
    then show ?thesis using Inr Cons.IH[of s'] by auto
  qed
qed

text \<open>
  Claim C9. Some entries that contain an equals sign make \<open>parse_add_flags\<close> raise
  \<open>IndexError\<close>: \<open>x=\<close> and \<open>x=:read\<close> do, and in general the call raises exactly when
  some entry with an equals sign has a command part that is empty or white space only,
  white space being every character at which \<open>str.split()\<close> splits, the next-line
  character and the no-break space included. The call returns a mapping exactly when
  every entry with an equals sign has a token in its command part.
\<close>

theorem parse_add_flags_raises:
  "parse_add_flags [''x=''] = Inl IndexError \<and>
   parse_add_flags [''x=:read''] = Inl IndexError \<and>
   (parse_add_flags items = Inl IndexError \<longleftrightarrow>
      (\<exists>item \<in> set items. CHR ''='' \<in> set item \<and> blank (command_part item))) \<and>
   ((\<exists>servers. parse_add_flags items = Inr servers) \<longleftrightarrow>
      (\<forall>item \<in> set items. CHR ''='' \<in> set item \<longrightarrow> \<not> blank (command_part item)))"
proof -
  have a: "parse_add_flags [''x=''] = Inl IndexError"
    by (simp add: parse_add_flags_def parse_item_def split_first_def split_ws_def)
  have b: "parse_add_flags [''x=:read''] = Inl IndexError"
    by (simp add: parse_add_flags_def parse_item_def split_first_def split_ws_def)
  have c: "parse_add_flags items = Inl IndexError \<longleftrightarrow>
      (\<exists>item \<in> set items. CHR ''='' \<in> set item \<and> blank (command_part item))"
    by (simp add: parse_add_flags_def parse_loop_Inl)
  have "(\<exists>servers. parse_add_flags items = Inr servers) \<longleftrightarrow>
        \<not> (\<exists>e. parse_add_flags items = Inl e)"
    by (cases "parse_add_flags items") auto
  also have "\<dots> \<longleftrightarrow>
        (\<forall>item \<in> set items. CHR ''='' \<in> set item \<longrightarrow> \<not> blank (command_part item))"
    by (auto simp: parse_add_flags_def parse_loop_Inl)
  finally show ?thesis using a b c by blast
qed

theorem parse_add_flags_raises_witness:
  "parse_add_flags [''x=   '', ''sentry=npx srv:*''] = Inl IndexError \<and>
   parse_add_flags [''x='' @ [CHR 0x85, CHR 0xA0] @ '':read''] = Inl IndexError \<and>
   (\<exists>servers. parse_add_flags [''no-equals'', ''sentry=npx srv:*''] = Inr servers)"
  using parse_add_flags_raises [of "[''x=   '', ''sentry=npx srv:*'']"]
        parse_add_flags_raises [of "[''x='' @ [CHR 0x85, CHR 0xA0] @ '':read'']"]
        parse_add_flags_raises [of "[''no-equals'', ''sentry=npx srv:*'']"]
  by (simp add: command_part_def split_first_def blank_def is_space_def)

lemma split_first_append:
  "sep \<notin> set a \<Longrightarrow> split_first sep (a @ sep # b) = (a, b)"
  by (induction a) (auto simp: split_first_def)

text \<open>
  Claim C2, as amended. An entry \<open>name=command:tools\<close> is split at the FIRST colon of
  its right-hand side: the command and its arguments are the tokens of the text before
  that colon, and the tools are read from all the text after it, further colons
  included. The entry \<open>x=run foo:read,write\<close> of the claim has one colon and parses as
  the claim says.
\<close>

theorem parse_add_flags_first_colon:
  assumes "CHR ''='' \<notin> set name" and "CHR '':'' \<notin> set command"
    and "split_ws command = c # rest"
  shows "parse_add_flags [name @ ''='' @ command @ '':'' @ tools] =
           Inr [(KStr name,
                 local_descriptor c rest
                   (if tools \<noteq> ''*'' then split_on CHR '','' tools else [''*'']))]"
proof -
  have 1: "split_first CHR ''='' (name @ CHR ''='' # command @ CHR '':'' # tools) =
             (name, command @ CHR '':'' # tools)"
    using split_first_append[OF assms(1)] by simp
  have 2: "split_first CHR '':'' (command @ CHR '':'' # tools) = (command, tools)"
    using split_first_append[OF assms(2)] by simp
  show ?thesis
    using assms(3) by (simp add: parse_add_flags_def parse_item_def 1 2 split del: if_split)
qed

theorem parse_add_flags_first_colon_witness:
  "parse_add_flags [''x=run foo:read,write''] =
     Inr [(KStr ''x'', local_descriptor ''run'' [''foo''] [''read'', ''write''])]"
  using parse_add_flags_first_colon
          [of "''x''" "''run foo''" "''run''" "[''foo'']" "''read,write''"]
  by (simp add: split_ws_def split_on_def is_space_def)

text \<open>
  Claim C2 as stated fails on an entry with two colons: for \<open>x=a:b:c\<close> the text after
  the last colon is \<open>c\<close> and the text before it is \<open>a:b\<close>, but the parser takes the
  command \<open>a\<close> and the single tool \<open>b:c\<close>.
\<close>

theorem parse_add_flags_last_colon_counterexample:
  "parse_add_flags [''x=a:b:c''] = Inr [(KStr ''x'', local_descriptor ''a'' [] [''b:c''])] \<and>
   parse_add_flags [''x=a:b:c''] \<noteq> Inr [(KStr ''x'', local_descriptor ''a:b'' [] [''c''])]"
  by (simp add: parse_add_flags_def parse_item_def split_first_def split_ws_def split_on_def
        is_space_def local_descriptor_def)

subsection \<open>The scanner: errors\<close>

lemma scan_dir_error: "snd (scan_dir p entries servers) = first_raise entries"
  by (induction entries arbitrary: servers) (auto simp: scan_entry_def split: sum.splits)

lemma find_loop_Cons:
  "find_loop fs (p # ps) servers =
     (case try_error (fs p) of
        None \<Rightarrow> find_loop fs ps (try_servers fs p servers)
      | Some e \<Rightarrow>
          (if e = FileNotFoundError then find_loop fs ps (try_servers fs p servers)
           else Inl e))"
proof (cases "iterdir (fs p)")
  case (Inl e)
  then show ?thesis by (simp add: try_error_def try_servers_def)
next
  case (Inr entries)
  obtain s' r where sd: "scan_dir p entries servers = (s', r)" by (cases "scan_dir p entries servers")
  then have "r = first_raise entries" using scan_dir_error[of p entries servers] by simp
  then show ?thesis using Inr sd by (simp add: try_error_def try_servers_def split: option.splits)
qed

lemma find_loop_Inl_iff:
  "find_loop fs ps servers = Inl e \<longleftrightarrow>
     e \<noteq> FileNotFoundError \<and>
     (\<exists>qs p rest. ps = qs @ p # rest \<and> try_error (fs p) = Some e \<and>
        (\<forall>q \<in> set qs. try_error (fs q) = None \<or> try_error (fs q) = Some FileNotFoundError))"
proof (induction ps arbitrary: servers)
  case Nil
  show ?case by simp
next
  case (Cons p ps)
  let ?ok = "\<lambda>q. try_error (fs q) = None \<or> try_error (fs q) = Some FileNotFoundError"
  let ?R = "\<lambda>xs. \<exists>qs p rest. xs = qs @ p # rest \<and> try_error (fs p) = Some e \<and>
        (\<forall>q \<in> set qs. ?ok q)"
  show ?case
  proof (cases "?ok p")
    case True
    have step: "find_loop fs (p # ps) servers = find_loop fs ps (try_servers fs p servers)"
      using True by (auto simp: find_loop_Cons simp del: find_loop.simps)
    have "e \<noteq> FileNotFoundError \<and> ?R (p # ps) \<longleftrightarrow> e \<noteq> FileNotFoundError \<and> ?R ps"
    proof (intro iffI conjI)
      assume a: "e \<noteq> FileNotFoundError \<and> ?R (p # ps)"
      then show "e \<noteq> FileNotFoundError" by simp
      from a obtain qs p' rest where eq: "p # ps = qs @ p' # rest"
        and err: "try_error (fs p') = Some e" and ok: "\<forall>q \<in> set qs. ?ok q"
        by blast
      show "?R ps"
      proof (cases qs)
        case Nil
        then have "p' = p" using eq by simp
        then show ?thesis using err True a by auto
      next
        case (Cons q qs')
        then have "ps = qs' @ p' # rest" and "\<forall>q \<in> set qs'. ?ok q" using eq ok by auto
        then show ?thesis using err by blast
      qed
    next
      assume a: "e \<noteq> FileNotFoundError \<and> ?R ps"
      then show "e \<noteq> FileNotFoundError" by simp
      from a obtain qs p' rest where eq: "ps = qs @ p' # rest"
        and err: "try_error (fs p') = Some e" and ok: "\<forall>q \<in> set qs. ?ok q"
        by blast
      have "p # ps = (p # qs) @ p' # rest" using eq by simp
      moreover have "\<forall>q \<in> set (p # qs). ?ok q" using ok True by simp
      ultimately show "?R (p # ps)" using err by blast
    qed
    then show ?thesis using step Cons.IH[of "try_servers fs p servers"] by simp
  next
    case False
    then obtain e' where e': "try_error (fs p) = Some e'" and ne: "e' \<noteq> FileNotFoundError"
      by (cases "try_error (fs p)") auto
    have step: "find_loop fs (p # ps) servers = Inl e'"
      using e' ne by (simp add: find_loop_Cons del: find_loop.simps)
    have "e \<noteq> FileNotFoundError \<and> ?R (p # ps) \<longleftrightarrow> e = e'"
    proof
      assume a: "e \<noteq> FileNotFoundError \<and> ?R (p # ps)"
      then obtain qs p' rest where eq: "p # ps = qs @ p' # rest"
        and err: "try_error (fs p') = Some e" and ok: "\<forall>q \<in> set qs. ?ok q"
        by blast
      show "e = e'"
      proof (cases qs)
        case Nil
        then have "p' = p" using eq by simp
        then show ?thesis using err e' by simp
      next
        case (Cons q qs')
        then have "q = p" using eq by simp
        then have "?ok p" using ok Cons by simp
        then show ?thesis using False by simp
      qed
    next
      assume "e = e'"
      moreover have "p # ps = [] @ p # ps" by simp
      ultimately show "e \<noteq> FileNotFoundError \<and> ?R (p # ps)"
        using e' ne by (metis empty_iff empty_set)
    qed
    then show ?thesis using step by auto
  qed
qed

lemma find_loop_Inr_iff:
  "(\<exists>found. find_loop fs ps servers = Inr found) \<longleftrightarrow>
     (\<forall>p \<in> set ps. try_error (fs p) = None \<or> try_error (fs p) = Some FileNotFoundError)"
proof (induction ps arbitrary: servers)
  case Nil
  show ?case by simp
next
  case (Cons p ps)
  show ?case
    using Cons.IH[of "try_servers fs p servers"]
    by (auto simp: find_loop_Cons simp del: find_loop.simps split: option.splits)
qed

lemma find_loop_skip_absent:
  "find_loop fs ps servers = find_loop fs (filter (\<lambda>q. fs q \<noteq> Absent) ps) servers"
proof (induction ps arbitrary: servers)
  case Nil
  show ?case by simp
next
  case (Cons p ps)
  show ?case
  proof (cases "fs p = Absent")
    case True
    then show ?thesis
      by (simp add: find_loop_Cons try_error_def try_servers_def Cons.IH del: find_loop.simps)
  next
    case False
    then show ?thesis
      using Cons.IH[of "try_servers fs p servers"]
      by (simp add: find_loop_Cons del: find_loop.simps split: option.splits)
  qed
qed

lemma find_loop_not_dir:
  assumes "p \<in> set ps" and "fs p = NotDir"
    and "\<forall>q \<in> set ps. try_error (fs q) = None \<or> try_error (fs q) = Some FileNotFoundError \<or>
           try_error (fs q) = Some NotADirectoryError"
  shows "find_loop fs ps servers = Inl NotADirectoryError"
proof -
  have "try_error (fs p) = Some NotADirectoryError"
    using assms(2) by (simp add: try_error_def)
  then have "\<exists>q \<in> set ps. try_error (fs q) = Some NotADirectoryError"
    using assms(1) by blast
  from split_list_first_prop[OF this] obtain qs q rest where
    eq: "ps = qs @ q # rest" and q: "try_error (fs q) = Some NotADirectoryError"
    and before: "\<forall>y \<in> set qs. try_error (fs y) \<noteq> Some NotADirectoryError"
    by blast
  have "\<forall>y \<in> set qs. try_error (fs y) = None \<or> try_error (fs y) = Some FileNotFoundError"
    using before assms(3) eq by auto
  then show ?thesis using eq q by (subst find_loop_Inl_iff) blast
qed

text \<open>
  Claim C10. The scanner suppresses \<open>FileNotFoundError\<close> and no other exception. The
  scan raises \<open>e\<close> exactly when \<open>e\<close> is not \<open>FileNotFoundError\<close> and is the exception of
  the \<open>try\<close> block for some string of the search path, every string before it giving no
  exception or \<open>FileNotFoundError\<close>; and it returns exactly when every string gives no
  exception or \<open>FileNotFoundError\<close>. Strings that name nothing are skipped: the scan
  is the scan of the remaining strings. A string that names something that is not a
  directory makes the scan raise \<open>NotADirectoryError\<close>, unless another exception is
  raised before it; and an exception of the scanner is the result of the whole run.
\<close>

theorem scanner_catches_only_not_found:
  "(find_loop fs ps servers = Inl e \<longleftrightarrow>
      e \<noteq> FileNotFoundError \<and>
      (\<exists>qs p rest. ps = qs @ p # rest \<and> try_error (fs p) = Some e \<and>
         (\<forall>q \<in> set qs. try_error (fs q) = None \<or> try_error (fs q) = Some FileNotFoundError))) \<and>
   ((\<exists>found. find_loop fs ps servers = Inr found) \<longleftrightarrow>
      (\<forall>p \<in> set ps. try_error (fs p) = None \<or> try_error (fs p) = Some FileNotFoundError)) \<and>
   find_loop fs ps servers = find_loop fs (filter (\<lambda>q. fs q \<noteq> Absent) ps) servers \<and>
   (p \<in> set ps \<and> fs p = NotDir \<and>
    (\<forall>q \<in> set ps. try_error (fs q) = None \<or> try_error (fs q) = Some FileNotFoundError \<or>
        try_error (fs q) = Some NotADirectoryError) \<longrightarrow>
      find_loop fs ps servers = Inl NotADirectoryError) \<and>
   (find_binaries (env_path ev) (env_fs ev) = Inl e \<longrightarrow> main ev ar = Inl e)"
  using find_loop_Inl_iff[of fs ps servers e] find_loop_Inr_iff[of fs ps servers]
    find_loop_skip_absent[of fs ps servers] find_loop_not_dir[of p ps fs servers]
  by (simp add: main_def discover_def)

theorem scanner_catches_only_not_found_witness:
  "find_binaries ''/nonexistent:/opt/bin'' fs_example = find_binaries ''/opt/bin'' fs_example \<and>
   find_binaries ''/nonexistent'' fs_example = Inr [] \<and>
   find_binaries ''/nonexistent:/etc/passwd:/opt/bin'' fs_example = Inl NotADirectoryError \<and>
   find_binaries ''/nonexistent:/root/bin:/opt/bin'' fs_denied = Inl PermissionError \<and>
   find_binaries ''/home/u/bin:/opt/bin'' fs_denied = Inl PermissionError \<and>
   main \<lparr>env_path = ''/nonexistent:/etc/passwd:/opt/bin'', env_fs = fs_example,
         env_base = None, env_json = (\<lambda>p. None)\<rparr>
        \<lparr>args_merge = None, args_add = []\<rparr> = Inl NotADirectoryError"
  using scanner_catches_only_not_found
          [of fs_example "[''/nonexistent'', ''/opt/bin'']" "[]" _ "''/etc/passwd''"]
        scanner_catches_only_not_found
          [of fs_example "[''/nonexistent'']" "[]" _ "''/etc/passwd''"]
        scanner_catches_only_not_found
          [of fs_example "[''/nonexistent'', ''/etc/passwd'', ''/opt/bin'']" "[]"
              NotADirectoryError "''/etc/passwd''"
              "\<lparr>env_path = ''/nonexistent:/etc/passwd:/opt/bin'', env_fs = fs_example,
                env_base = None, env_json = (\<lambda>p. None)\<rparr>"
              "\<lparr>args_merge = None, args_add = []\<rparr>"]
        scanner_catches_only_not_found
          [of fs_denied "[''/nonexistent'', ''/root/bin'', ''/opt/bin'']" "[]" PermissionError]
        scanner_catches_only_not_found
          [of fs_denied "[''/home/u/bin'', ''/opt/bin'']" "[]" PermissionError]
  by (simp add: find_binaries_def split_on_def fs_example_def fs_denied_def try_error_def
        scan_entry_def)

subsection \<open>Dictionaries\<close>

lemma setitem_update: "setitem k v d = AList.update k v d"
  by (induction d) auto

lemma map_of_setitem: "map_of (setitem k v d) = (map_of d)(k \<mapsto> v)"
  by (simp add: setitem_update update_conv')

lemma keys_setitem: "fst ` set (setitem k v d) = insert k (fst ` set d)"
  by (simp add: setitem_update dom_update)

lemma setitem_same: "map_of d k = Some v \<Longrightarrow> setitem k v d = d"
  by (simp add: setitem_update update_triv)

lemma setitem_twice: "setitem k v (setitem k v' d) = setitem k v d"
  by (simp add: setitem_update)

lemma setitem_swap:
  "k \<noteq> k' \<Longrightarrow> k \<in> fst ` set d \<Longrightarrow>
   setitem k' v' (setitem k v d) = setitem k v (setitem k' v' d)"
  by (induction d) auto

lemma distinct_setitem: "distinct (map fst d) \<Longrightarrow> distinct (map fst (setitem k v d))"
  by (simp add: setitem_update distinct_update)

text \<open>
  A fold of updates \<open>f k v\<close> applied twice is the fold applied once, when an update
  at a key overwrites an earlier one at that key and commutes with updates at other keys
  once the key is present (\<open>P k s\<close>).
\<close>

lemma fold_upd_push:
  assumes a: "\<And>k v v' s. f k v (f k v' s) = f k v s"
    and b: "\<And>k k' v v' s. k \<noteq> k' \<Longrightarrow> P k s \<Longrightarrow> f k' v' (f k v s) = f k v (f k' v' s)"
    and d: "\<And>k k' v s. P k s \<Longrightarrow> P k (f k' v s)"
    and p: "P k s"
  shows "fold (\<lambda>(k, v). f k v) N (f k v s) =
           (if k \<in> fst ` set N then fold (\<lambda>(k, v). f k v) N s
            else f k v (fold (\<lambda>(k, v). f k v) N s))"
  using p
proof (induction N arbitrary: s)
  case Nil
  show ?case by simp
next
  case (Cons x N)
  obtain k' v' where x: "x = (k', v')" by (cases x)
  show ?case
  proof (cases "k' = k")
    case True
    then show ?thesis using x by (simp add: a)
  next
    case False
    have "f k' v' (f k v s) = f k v (f k' v' s)"
      using b[of k k' s v' v] False Cons.prems by auto
    moreover have "P k (f k' v' s)" using d Cons.prems by auto
    ultimately show ?thesis using x False Cons.IH[of "f k' v' s"] by auto
  qed
qed

lemma fold_upd_P:
  assumes d: "\<And>k k' v s. P k s \<Longrightarrow> P k (f k' v s)"
  shows "P k s \<Longrightarrow> P k (fold (\<lambda>(k, v). f k v) N s)"
  by (induction N arbitrary: s) (auto simp: d)

lemma fold_upd_idem:
  assumes a: "\<And>k v v' s. f k v (f k v' s) = f k v s"
    and b: "\<And>k k' v v' s. k \<noteq> k' \<Longrightarrow> P k s \<Longrightarrow> f k' v' (f k v s) = f k v (f k' v' s)"
    and c: "\<And>k v s. P k (f k v s)"
    and d: "\<And>k k' v s. P k s \<Longrightarrow> P k (f k' v s)"
  shows "fold (\<lambda>(k, v). f k v) N (fold (\<lambda>(k, v). f k v) N s) = fold (\<lambda>(k, v). f k v) N s"
proof (induction N arbitrary: s)
  case Nil
  show ?case by simp
next
  case (Cons x N)
  obtain k v where x: "x = (k, v)" by (cases x)
  let ?F = "fold (\<lambda>(k, v). f k v) N"
  define T where "T = ?F (f k v s)"
  have PT: "P k T" unfolding T_def by (rule fold_upd_P[of P f, OF d c])
  have TT: "?F T = T" unfolding T_def by (rule Cons.IH)
  have push: "?F (f k v T) = (if k \<in> fst ` set N then ?F T else f k v (?F T))"
    by (rule fold_upd_push[of f P, OF a b d PT])
  have "f k v T = T" if "k \<notin> fst ` set N"
  proof -
    have "T = ?F (f k v (f k v s))" unfolding T_def by (simp add: a)
    also have "\<dots> = f k v (?F (f k v s))"
      using fold_upd_push[of f P k "f k v s" N v, OF a b d c] that by simp
    finally have "T = f k v T" unfolding T_def .
    then show ?thesis by simp
  qed
  then have "?F (f k v T) = T" using push TT by auto
  then show ?case using x by (simp add: T_def)
qed

lemma dict_update_idem: "dict_update (dict_update d new) new = dict_update d new"
  unfolding dict_update_def
  by (rule fold_upd_idem[of setitem "\<lambda>k s. k \<in> fst ` set s"])
     (auto simp: setitem_twice setitem_swap keys_setitem)

subsection \<open>The merge\<close>

lemma store_all_dict: "store_all N (JObj s) = Inr (JObj (dict_update s N))"
  by (induction N arbitrary: s) (auto simp: dict_update_def)

lemma store_all_list:
  "store_all N (JList l) = Inr c' \<longleftrightarrow>
     (\<forall>k \<in> fst ` set N. index_ok (length l) k) \<and>
     c' = JList (fold (\<lambda>(j, v) l. l[j := v]) (map (\<lambda>(k, v). (slot (length l) k, v)) N) l)"
proof (induction N arbitrary: l)
  case Nil
  show ?case by auto
next
  case (Cons x N)
  obtain k v where x: "x = (k, v)" by (cases x)
  show ?case
  proof (cases k)
    case (KInt i)
    show ?thesis
      using x KInt Cons.IH[of "l[nat (if i < 0 then i + int (length l) else i) := v]"]
      by (auto simp: index_ok_def slot_def Let_def)
  qed (simp_all add: x index_ok_def)
qed

lemma store_all_scalar:
  "\<forall>s. c \<noteq> JObj s \<Longrightarrow> \<forall>l. c \<noteq> JList l \<Longrightarrow> store_all N c = Inr c' \<longleftrightarrow> N = [] \<and> c' = c"
  by (cases N; cases c) auto

lemma list_fold_idem:
  "fold (\<lambda>(j, v) l. l[j := v]) U (fold (\<lambda>(j, v) l. l[j := v]) U l) =
   fold (\<lambda>(j, v) l. l[j := v]) U (l :: 'a list)"
  by (rule fold_upd_idem[of "\<lambda>j v l. l[j := v]" "\<lambda>j l. True"])
     (auto simp: list_update_swap)

lemma length_list_fold: "length (fold (\<lambda>(j, v) l. l[j := v]) U l) = length l"
  by (induction U arbitrary: l) auto

lemma store_all_idem: "store_all N c = Inr c' \<Longrightarrow> store_all N c' = Inr c'"
proof (cases c)
  case (JObj s)
  assume "store_all N c = Inr c'"
  then have "c' = JObj (dict_update s N)" using JObj by (simp add: store_all_dict)
  then show ?thesis by (simp add: store_all_dict dict_update_idem)
next
  case (JList l)
  assume "store_all N c = Inr c'"
  then have ok: "\<forall>k \<in> fst ` set N. index_ok (length l) k"
    and c': "c' = JList (fold (\<lambda>(j, v) l. l[j := v]) (map (\<lambda>(k, v). (slot (length l) k, v)) N) l)"
    using JList by (simp_all add: store_all_list)
  show ?thesis
    unfolding c' store_all_list using ok by (simp add: length_list_fold list_fold_idem)
qed (auto simp: store_all_scalar)

lemma merge_loop_store_all:
  "map_of merged (KStr ''mcpServers'') = Some c \<Longrightarrow>
   merge_loop N merged =
     (case store_all N c of
        Inl e \<Rightarrow> Inl e
      | Inr c' \<Rightarrow> Inr (setitem (KStr ''mcpServers'') c' merged))"
proof (induction N arbitrary: merged c)
  case Nil
  then show ?case by (simp add: setitem_same)
next
  case (Cons x N)
  obtain k v where x: "x = (k, v)" by (cases x)
  show ?case
  proof (cases "store_item c k v")
    case (Inl e)
    then show ?thesis using x Cons.prems by simp
  next
    case (Inr c1)
    have "map_of (setitem (KStr ''mcpServers'') c1 merged) (KStr ''mcpServers'') = Some c1"
      by (simp add: map_of_setitem)
    from Cons.IH[OF this] show ?thesis
      using x Cons.prems Inr by (simp add: setitem_twice split: sum.splits)
  qed
qed

lemma map_of_setdefault:
  "map_of (setdefault (KStr ''mcpServers'') (JObj []) d) (KStr ''mcpServers'') = Some (servers_of d)"
  by (auto simp: setdefault_def servers_of_def map_add_def split: option.splits)

lemma map_of_setdefault_other:
  "k \<noteq> k' \<Longrightarrow> map_of (setdefault k' v d) k = map_of d k"
  by (auto simp: setdefault_def map_add_def split: option.splits)

lemma setdefault_present: "map_of d k = Some c \<Longrightarrow> setdefault k v d = d"
  by (simp add: setdefault_def)

lemma merge_configs_eq:
  "merge_configs (JObj d) N =
     (case store_all N (servers_of d) of
        Inl e \<Rightarrow> Inl e
      | Inr c' \<Rightarrow> Inr (JObj (setitem (KStr ''mcpServers'') c'
                               (setdefault (KStr ''mcpServers'') (JObj []) d))))"
  by (simp add: merge_configs_def merge_loop_store_all[OF map_of_setdefault] split: sum.splits)

lemma merge_configs_not_dict: "\<forall>d. D \<noteq> JObj d \<Longrightarrow> merge_configs D N = Inl AttributeError"
  by (cases D) (auto simp: merge_configs_def)

text \<open>
  Claim C5. Merging is idempotent: when merging \<open>N\<close> into \<open>D\<close> returns a document,
  merging \<open>N\<close> into that document returns the same document, and when it raises, so does
  the composition. The equation holds for every value \<open>D\<close> and every list of items
  \<open>N\<close>, and the documents are equal as lists, hence as dictionaries.
\<close>

theorem merge_configs_idempotent:
  "and_then (merge_configs D N) (\<lambda>M. merge_configs M N) = merge_configs D N"
proof (cases "merge_configs D N")
  case (Inl e)
  then show ?thesis by simp
next
  case (Inr M)
  then obtain d where D: "D = JObj d" using merge_configs_not_dict[of D N] by auto
  let ?K = "KStr ''mcpServers''"
  let ?d0 = "setdefault ?K (JObj []) d"
  from Inr D obtain c' where c': "store_all N (servers_of d) = Inr c'"
    and M: "M = JObj (setitem ?K c' ?d0)"
    by (auto simp: merge_configs_eq split: sum.splits)
  have look: "map_of (setitem ?K c' ?d0) ?K = Some c'" by (simp add: map_of_setitem)
  have "servers_of (setitem ?K c' ?d0) = c'" using look by (simp add: servers_of_def)
  moreover have "store_all N c' = Inr c'" using c' by (rule store_all_idem)
  ultimately have "merge_configs M N = Inr M"
    using M look by (simp add: merge_configs_eq setdefault_present setitem_twice)
  then show ?thesis using Inr by simp
qed

lemma map_of_dict_update_other:
  "n \<notin> fst ` set N \<Longrightarrow> map_of (dict_update s N) n = map_of s n"
  unfolding dict_update_def
  by (induction N arbitrary: s) (auto simp: map_of_setitem)

text \<open>
  Claim C6. A document returned by the merge keeps every top-level key of \<open>D\<close> other than
  \<open>mcpServers\<close> with its value, has the key \<open>mcpServers\<close>, and keeps every entry of
  the mapping that \<open>D\<close> has under that key whose name is not a name of \<open>N\<close>. The merge
  returns a document whenever \<open>D\<close> is a dictionary in which the key is absent or bound
  to a mapping.
\<close>

theorem merge_configs_frame:
  "(merge_configs D N = Inr R \<longrightarrow>
      (\<exists>d r. D = JObj d \<and> R = JObj r \<and>
         (\<forall>k. k \<noteq> KStr ''mcpServers'' \<longrightarrow> map_of r k = map_of d k) \<and>
         map_of r (KStr ''mcpServers'') \<noteq> None \<and>
         (\<forall>s. map_of d (KStr ''mcpServers'') = Some (JObj s) \<longrightarrow>
            (\<exists>s'. map_of r (KStr ''mcpServers'') = Some (JObj s') \<and>
                  (\<forall>n. n \<notin> fst ` set N \<longrightarrow> map_of s' n = map_of s n))))) \<and>
   (map_of d' (KStr ''mcpServers'') = None \<or>
      (\<exists>s. map_of d' (KStr ''mcpServers'') = Some (JObj s)) \<longrightarrow>
      (\<exists>r. merge_configs (JObj d') N = Inr (JObj r)))"
proof (intro conjI impI)
  assume R: "merge_configs D N = Inr R"
  then obtain d where D: "D = JObj d" using merge_configs_not_dict[of D N] by auto
  let ?K = "KStr ''mcpServers''"
  let ?d0 = "setdefault ?K (JObj []) d"
  from R D obtain c' where c': "store_all N (servers_of d) = Inr c'"
    and Rr: "R = JObj (setitem ?K c' ?d0)"
    by (auto simp: merge_configs_eq split: sum.splits)
  have 1: "\<forall>k. k \<noteq> ?K \<longrightarrow> map_of (setitem ?K c' ?d0) k = map_of d k"
    by (simp add: map_of_setitem map_of_setdefault_other)
  have 2: "map_of (setitem ?K c' ?d0) ?K = Some c'" by (simp add: map_of_setitem)
  have 3: "\<exists>s'. c' = JObj s' \<and> (\<forall>n. n \<notin> fst ` set N \<longrightarrow> map_of s' n = map_of s n)"
    if "map_of d ?K = Some (JObj s)" for s
  proof -
    have "servers_of d = JObj s" using that by (simp add: servers_of_def)
    then have "c' = JObj (dict_update s N)" using c' by (simp add: store_all_dict)
    then show ?thesis by (simp add: map_of_dict_update_other)
  qed
  show "\<exists>d r. D = JObj d \<and> R = JObj r \<and>
         (\<forall>k. k \<noteq> ?K \<longrightarrow> map_of r k = map_of d k) \<and>
         map_of r ?K \<noteq> None \<and>
         (\<forall>s. map_of d ?K = Some (JObj s) \<longrightarrow>
            (\<exists>s'. map_of r ?K = Some (JObj s') \<and>
                  (\<forall>n. n \<notin> fst ` set N \<longrightarrow> map_of s' n = map_of s n)))"
    using D Rr 1 2 3 by auto
next
  assume "map_of d' (KStr ''mcpServers'') = None \<or>
      (\<exists>s. map_of d' (KStr ''mcpServers'') = Some (JObj s))"
  then obtain s where "servers_of d' = JObj s" by (auto simp: servers_of_def)
  then show "\<exists>r. merge_configs (JObj d') N = Inr (JObj r)"
    by (simp add: merge_configs_eq store_all_dict)
qed

lemma merge_example:
  "merge_configs doc_example new_example =
     Inr (JObj [(KStr ''other'', JInt 1),
           (KStr ''mcpServers'', JObj [(KStr ''a'', JStr ''old a''), (KStr ''b'', JStr ''new b''),
              (KStr ''c'', JStr ''new c'')])])"
  by (simp add: merge_configs_def doc_example_def new_example_def setdefault_def)

theorem merge_configs_frame_witness:
  "merge_configs doc_example new_example =
     Inr (JObj [(KStr ''other'', JInt 1),
           (KStr ''mcpServers'', JObj [(KStr ''a'', JStr ''old a''), (KStr ''b'', JStr ''new b''),
              (KStr ''c'', JStr ''new c'')])]) \<and>
   (\<exists>r. merge_configs (JObj [(KStr ''other'', JInt 1)]) new_example = Inr (JObj r))"
  using merge_configs_frame
          [of doc_example new_example
              "JObj [(KStr ''other'', JInt 1),
                 (KStr ''mcpServers'', JObj [(KStr ''a'', JStr ''old a''),
                    (KStr ''b'', JStr ''new b''), (KStr ''c'', JStr ''new c'')])]"
              "[(KStr ''other'', JInt 1)]"]
  by (simp add: merge_example)

subsection \<open>The example run\<close>

lemma find_example:
  "find_binaries ''/nonexistent:/opt/bin'' fs_example =
     Inr [(KStr ''github_mcp_server'', local_descriptor ''/opt/bin/github-mcp-server'' [] [''*''])]"
  by (simp add: find_binaries_def split_on_def fs_example_def scan_entry_def
        name_matches_def has_suffix_def endswith_def stem_def rfind_dot_def replace_dash_def
        entry_str_def path_root_def path_parts_def)

lemma load_example:
  "load_yaml_descriptors (env_base env_example) =
     Inr [(KStr ''github_mcp_server'',
           JObj [(KStr ''type'', JStr ''remote''), (KStr ''url'', JStr ''https://example.org/github'')]),
          (KStr ''sentry'',
           JObj [(KStr ''type'', JStr ''remote''), (KStr ''url'', JStr ''https://example.org/sentry'')])]"
  by (simp add: env_example_def load_yaml_descriptors_def load_file_def)

lemma parse_example:
  "parse_add_flags (args_add args_example) =
     Inr [(KStr ''sentry'', local_descriptor ''npx'' [''@sentry/mcp-server@latest''] [''*''])]"
  by (simp add: args_example_def parse_add_flags_def parse_item_def split_first_def split_ws_def
       is_space_def)

lemma discover_example:
  "discover env_example args_example =
     Inr [(KStr ''github_mcp_server'',
           JObj [(KStr ''type'', JStr ''remote''), (KStr ''url'', JStr ''https://example.org/github'')]),
          (KStr ''sentry'', local_descriptor ''npx'' [''@sentry/mcp-server@latest''] [''*''])]"
  unfolding discover_def load_example parse_example
  by (simp add: env_example_def find_example dict_update_def)

lemma main_example:
  "main env_example args_example =
     Inr (Wrote ''mcp.json''
       (JObj [(KStr ''other'', JInt 1),
          (KStr ''mcpServers'',
           JObj [(KStr ''sentry'', local_descriptor ''npx'' [''@sentry/mcp-server@latest''] [''*'']),
                 (KStr ''legacy'', local_descriptor ''legacy'' [] [''*'']),
                 (KStr ''github_mcp_server'',
                  JObj [(KStr ''type'', JStr ''remote''),
                        (KStr ''url'', JStr ''https://example.org/github'')])])]))"
  unfolding main_def discover_example
  by (simp add: env_example_def args_example_def merge_configs_def setdefault_def
        path_str_def path_root_def path_parts_def split_on_def)

subsection \<open>Orchestration\<close>

lemma map_of_dict_update:
  "distinct (map fst other) \<Longrightarrow>
   map_of (dict_update d other) name =
     (case map_of other name of Some v \<Rightarrow> Some v | None \<Rightarrow> map_of d name)"
proof (induction other arbitrary: d)
  case Nil
  show ?case by (simp add: dict_update_def)
next
  case (Cons x other)
  obtain k v where x: "x = (k, v)" by (cases x)
  have k: "map_of other k = None" using Cons.prems x by (simp add: map_of_eq_None_iff)
  have "dict_update d (x # other) = dict_update (setitem k v d) other"
    by (simp add: dict_update_def x)
  then show ?case using Cons.IH[of "setitem k v d"] Cons.prems x k
    by (auto simp: map_of_setitem split: option.splits)
qed

lemma distinct_dict_update:
  "distinct (map fst d) \<Longrightarrow> distinct (map fst (dict_update d other))"
  unfolding dict_update_def
  by (induction other arbitrary: d) (auto simp: distinct_setitem)

lemma distinct_scan_dir:
  "distinct (map fst servers) \<Longrightarrow> distinct (map fst (fst (scan_dir p entries servers)))"
  by (induction entries arbitrary: servers)
     (auto simp: scan_entry_def distinct_setitem split: sum.splits)

lemma distinct_try_servers:
  "distinct (map fst servers) \<Longrightarrow> distinct (map fst (try_servers fs p servers))"
  by (auto simp: try_servers_def distinct_scan_dir split: sum.splits)

lemma distinct_find_loop:
  "find_loop fs ps servers = Inr found \<Longrightarrow> distinct (map fst servers) \<Longrightarrow>
   distinct (map fst found)"
proof (induction ps arbitrary: servers)
  case Nil
  then show ?case by simp
next
  case (Cons p ps)
  from Cons.prems(1) have "find_loop fs ps (try_servers fs p servers) = Inr found"
    by (auto simp: find_loop_Cons simp del: find_loop.simps split: option.splits if_splits)
  then show ?case using Cons.IH Cons.prems(2) distinct_try_servers by blast
qed

lemma distinct_parse_item:
  "parse_item servers item = Inr servers' \<Longrightarrow> distinct (map fst servers) \<Longrightarrow>
   distinct (map fst servers')"
  by (auto simp: parse_item_def Let_def distinct_setitem split: if_splits prod.splits list.splits)

lemma distinct_parse_loop:
  "parse_loop items servers = Inr added \<Longrightarrow> distinct (map fst servers) \<Longrightarrow>
   distinct (map fst added)"
proof (induction items arbitrary: servers)
  case Nil
  then show ?case by simp
next
  case (Cons item items)
  then show ?case by (auto split: sum.splits dest: distinct_parse_item)
qed

lemma distinct_load_file:
  "load_file servers file = Inr servers' \<Longrightarrow> distinct (map fst servers) \<Longrightarrow>
   distinct (map fst servers')"
  by (auto simp: load_file_def and_then_eq_Inr distinct_setitem)

lemma distinct_load_loop:
  "load_loop files servers = Inr loaded \<Longrightarrow> distinct (map fst servers) \<Longrightarrow>
   distinct (map fst loaded)"
proof (induction files arbitrary: servers)
  case Nil
  then show ?case by simp
next
  case (Cons fl files)
  then show ?case by (auto split: sum.splits dest: distinct_load_file)
qed

lemma discover_lookup:
  assumes "discover ev ar = Inr servers"
  shows "\<exists>found loaded added.
           find_binaries (env_path ev) (env_fs ev) = Inr found \<and>
           load_yaml_descriptors (env_base ev) = Inr loaded \<and>
           parse_add_flags (args_add ar) = Inr added \<and>
           distinct (map fst servers) \<and>
           (\<forall>name. map_of servers name =
              (case map_of added name of
                 Some d \<Rightarrow> Some d
               | None \<Rightarrow>
                   (case map_of loaded name of
                      Some d \<Rightarrow> Some d
                    | None \<Rightarrow> map_of found name)))"
proof -
  from assms obtain found loaded added where
    f: "find_binaries (env_path ev) (env_fs ev) = Inr found" and
    l: "load_yaml_descriptors (env_base ev) = Inr loaded" and
    a: "parse_add_flags (args_add ar) = Inr added" and
    s: "servers = dict_update (dict_update (dict_update [] found) loaded) added"
    by (auto simp: discover_def and_then_eq_Inr)
  have df: "distinct (map fst found)"
    using f distinct_find_loop[of _ _ "[]" found] by (simp add: find_binaries_def)
  have dl: "distinct (map fst loaded)"
    using l distinct_load_loop[of _ "[]" loaded]
    by (auto simp: load_yaml_descriptors_def split: option.splits)
  have da: "distinct (map fst added)"
    using a distinct_parse_loop[of _ "[]" added] by (simp add: parse_add_flags_def)
  have "\<forall>name. map_of servers name =
              (case map_of added name of
                 Some d \<Rightarrow> Some d
               | None \<Rightarrow>
                   (case map_of loaded name of
                      Some d \<Rightarrow> Some d
                    | None \<Rightarrow> map_of found name))"
    unfolding s by (simp add: map_of_dict_update df dl da split: option.splits)
  moreover have "distinct (map fst servers)"
    unfolding s by (simp add: distinct_dict_update)
  ultimately show ?thesis using f l a by blast
qed

text \<open>
  Claim C7. The three sources run in the order scanner, loader of descriptor files,
  parser of explicit entries: the first error in that order is the result, and when all
  three return, so does the discovery. In the discovered mapping a name has the
  descriptor of the parser when the parser produced the name, else that of the loader
  when the loader produced it, else that of the scanner; a name that no source produced
  is absent.
\<close>

theorem discover_precedence:
  "(discover ev ar = Inr servers \<longrightarrow>
      (\<exists>found loaded added.
         find_binaries (env_path ev) (env_fs ev) = Inr found \<and>
         load_yaml_descriptors (env_base ev) = Inr loaded \<and>
         parse_add_flags (args_add ar) = Inr added \<and>
         (\<forall>name. map_of servers name =
            (case map_of added name of
               Some d \<Rightarrow> Some d
             | None \<Rightarrow>
                 (case map_of loaded name of
                    Some d \<Rightarrow> Some d
                  | None \<Rightarrow> map_of found name))))) \<and>
   (find_binaries (env_path ev) (env_fs ev) = Inr found' \<and>
    load_yaml_descriptors (env_base ev) = Inr loaded' \<and>
    parse_add_flags (args_add ar) = Inr added' \<longrightarrow>
      discover ev ar = Inr (dict_update (dict_update (dict_update [] found') loaded') added')) \<and>
   (find_binaries (env_path ev) (env_fs ev) = Inl e \<longrightarrow> discover ev ar = Inl e) \<and>
   (find_binaries (env_path ev) (env_fs ev) = Inr found' \<and>
    load_yaml_descriptors (env_base ev) = Inl e \<longrightarrow> discover ev ar = Inl e) \<and>
   (find_binaries (env_path ev) (env_fs ev) = Inr found' \<and>
    load_yaml_descriptors (env_base ev) = Inr loaded' \<and>
    parse_add_flags (args_add ar) = Inl e \<longrightarrow> discover ev ar = Inl e)"
proof (intro conjI impI)
  assume "discover ev ar = Inr servers"
  from discover_lookup[OF this]
  show "\<exists>found loaded added.
         find_binaries (env_path ev) (env_fs ev) = Inr found \<and>
         load_yaml_descriptors (env_base ev) = Inr loaded \<and>
         parse_add_flags (args_add ar) = Inr added \<and>
         (\<forall>name. map_of servers name =
            (case map_of added name of
               Some d \<Rightarrow> Some d
             | None \<Rightarrow>
                 (case map_of loaded name of
                    Some d \<Rightarrow> Some d
                  | None \<Rightarrow> map_of found name)))"
    by blast
qed (simp_all add: discover_def)

theorem discover_precedence_witness:
  "discover env_example args_example =
     Inr [(KStr ''github_mcp_server'',
           JObj [(KStr ''type'', JStr ''remote''), (KStr ''url'', JStr ''https://example.org/github'')]),
          (KStr ''sentry'', local_descriptor ''npx'' [''@sentry/mcp-server@latest''] [''*''])] \<and>
   (\<exists>found loaded added.
      find_binaries (env_path env_example) (env_fs env_example) = Inr found \<and>
      load_yaml_descriptors (env_base env_example) = Inr loaded \<and>
      parse_add_flags (args_add args_example) = Inr added \<and>
      map_of found (KStr ''github_mcp_server'') \<noteq> None \<and>
      map_of loaded (KStr ''github_mcp_server'') \<noteq> None \<and>
      map_of loaded (KStr ''sentry'') \<noteq> None \<and>
      map_of added (KStr ''sentry'') \<noteq> None)"
  using discover_precedence
          [of env_example args_example
              "[(KStr ''github_mcp_server'',
                 JObj [(KStr ''type'', JStr ''remote''),
                       (KStr ''url'', JStr ''https://example.org/github'')]),
                (KStr ''sentry'', local_descriptor ''npx'' [''@sentry/mcp-server@latest''] [''*''])]"]
  by (simp add: discover_example load_example parse_example)
      (simp add: env_example_def find_example)

subsection \<open>The run with a merge target\<close>

text \<open>
  Claim C1, as amended. When the run writes a merged document (under the path of the
  \<open>--merge\<close> argument, from which it has read the target), the mapping under
  \<open>mcpServers\<close> holds for every name one whole descriptor, taken from the latest source
  that has the name in the order: content of the merge target, scanner, descriptor
  files, explicit entries. The content of the target is first in this order and not
  last: for a name that is both in the target and in the discovered mapping the
  discovered descriptor replaces the one of the target.
\<close>

theorem main_merge_precedence:
  assumes "main ev ar = Inr (Wrote path merged)"
  shows "\<exists>merge found loaded added d r.
           args_merge ar = Some merge \<and> path = path_str merge \<and>
           find_binaries (env_path ev) (env_fs ev) = Inr found \<and>
           load_yaml_descriptors (env_base ev) = Inr loaded \<and>
           parse_add_flags (args_add ar) = Inr added \<and>
           (env_json ev path = None \<and> d = [] \<or> env_json ev path = Some (Inr (JObj d))) \<and>
           merged = JObj r \<and>
           (\<forall>s. servers_of d = JObj s \<longrightarrow>
              (\<exists>s'. map_of r (KStr ''mcpServers'') = Some (JObj s') \<and>
                 (\<forall>name. map_of s' name =
                    (case map_of added name of
                       Some desc \<Rightarrow> Some desc
                     | None \<Rightarrow>
                         (case map_of loaded name of
                            Some desc \<Rightarrow> Some desc
                          | None \<Rightarrow>
                              (case map_of found name of
                                 Some desc \<Rightarrow> Some desc
                               | None \<Rightarrow> map_of s name))))))"
proof -
  from assms obtain servers where disc: "discover ev ar = Inr servers"
    by (auto simp: main_def and_then_eq_Inr)
  from assms disc obtain existing where
    ex: "(case env_json ev path of None \<Rightarrow> Inr (JObj []) | Some r \<Rightarrow> r) = Inr existing" and
    mg: "merge_configs existing servers = Inr merged"
    by (auto simp: main_def and_then_eq_Inr Let_def split: option.splits if_splits)
  from mg obtain d where d: "existing = JObj d"
    using merge_configs_not_dict[of existing servers] by auto
  have tgt: "\<exists>merge. args_merge ar = Some merge \<and> path = path_str merge"
    using assms disc
    by (auto simp: main_def and_then_eq_Inr Let_def split: option.splits if_splits)
  have src: "env_json ev path = None \<and> d = [] \<or> env_json ev path = Some (Inr (JObj d))"
    using ex d by (auto split: option.splits)
  let ?K = "KStr ''mcpServers''"
  let ?d0 = "setdefault ?K (JObj []) d"
  from mg d obtain c' where c': "store_all servers (servers_of d) = Inr c'"
    and m: "merged = JObj (setitem ?K c' ?d0)"
    by (auto simp: merge_configs_eq split: sum.splits)
  from discover_lookup[OF disc] obtain found loaded added where
    f: "find_binaries (env_path ev) (env_fs ev) = Inr found" and
    l: "load_yaml_descriptors (env_base ev) = Inr loaded" and
    a: "parse_add_flags (args_add ar) = Inr added" and
    ds: "distinct (map fst servers)" and
    look: "\<forall>name. map_of servers name =
              (case map_of added name of
                 Some d \<Rightarrow> Some d
               | None \<Rightarrow>
                   (case map_of loaded name of
                      Some d \<Rightarrow> Some d
                    | None \<Rightarrow> map_of found name))"
    by blast
  have "\<exists>s'. map_of (setitem ?K c' ?d0) ?K = Some (JObj s') \<and>
          (\<forall>name. map_of s' name =
                    (case map_of added name of
                       Some desc \<Rightarrow> Some desc
                     | None \<Rightarrow>
                         (case map_of loaded name of
                            Some desc \<Rightarrow> Some desc
                          | None \<Rightarrow>
                              (case map_of found name of
                                 Some desc \<Rightarrow> Some desc
                               | None \<Rightarrow> map_of s name))))"
    if "servers_of d = JObj s" for s
  proof -
    have "c' = JObj (dict_update s servers)" using c' that by (simp add: store_all_dict)
    then show ?thesis
      by (simp add: map_of_setitem map_of_dict_update[OF ds] look split: option.splits)
  qed
  then show ?thesis using tgt f l a src m by blast
qed

theorem main_merge_precedence_witness:
  "main env_example args_example =
     Inr (Wrote ''mcp.json''
       (JObj [(KStr ''other'', JInt 1),
          (KStr ''mcpServers'',
           JObj [(KStr ''sentry'', local_descriptor ''npx'' [''@sentry/mcp-server@latest''] [''*'']),
                 (KStr ''legacy'', local_descriptor ''legacy'' [] [''*'']),
                 (KStr ''github_mcp_server'',
                  JObj [(KStr ''type'', JStr ''remote''),
                        (KStr ''url'', JStr ''https://example.org/github'')])])])) \<and>
   (\<exists>found loaded added d.
      find_binaries (env_path env_example) (env_fs env_example) = Inr found \<and>
      load_yaml_descriptors (env_base env_example) = Inr loaded \<and>
      parse_add_flags (args_add args_example) = Inr added \<and>
      env_json env_example ''mcp.json'' = Some (Inr (JObj d)) \<and>
      (\<exists>s. servers_of d = JObj s))"
  using main_merge_precedence [OF main_example] main_example
  by (auto simp: env_example_def servers_of_def)

text \<open>
  Claim C1 as stated fails where it puts the content of the merge target last: in the
  example run the target has an entry \<open>sentry\<close>, an explicit entry has the same name,
  and the document written holds the descriptor of the explicit entry.
\<close>

theorem merge_target_wins_counterexample:
  "env_json env_example ''mcp.json'' =
     Some (Inr (JObj [(KStr ''other'', JInt 1),
       (KStr ''mcpServers'',
        JObj [(KStr ''sentry'', local_descriptor ''old-sentry'' [] [''*'']),
              (KStr ''legacy'', local_descriptor ''legacy'' [] [''*''])])])) \<and>
   discover env_example args_example =
     Inr [(KStr ''github_mcp_server'',
           JObj [(KStr ''type'', JStr ''remote''), (KStr ''url'', JStr ''https://example.org/github'')]),
          (KStr ''sentry'', local_descriptor ''npx'' [''@sentry/mcp-server@latest''] [''*''])] \<and>
   main env_example args_example =
     Inr (Wrote ''mcp.json''
       (JObj [(KStr ''other'', JInt 1),
          (KStr ''mcpServers'',
           JObj [(KStr ''sentry'', local_descriptor ''npx'' [''@sentry/mcp-server@latest''] [''*'']),
                 (KStr ''legacy'', local_descriptor ''legacy'' [] [''*'']),
                 (KStr ''github_mcp_server'',
                  JObj [(KStr ''type'', JStr ''remote''),
                        (KStr ''url'', JStr ''https://example.org/github'')])])])) \<and>
   local_descriptor ''npx'' [''@sentry/mcp-server@latest''] [''*''] \<noteq>
     local_descriptor ''old-sentry'' [] [''*'']"
  by (simp add: main_example discover_example) (simp add: env_example_def local_descriptor_def)

subsection \<open>The loader of descriptor files\<close>

lemma load_file_Inr:
  "load_file servers fl = Inr servers' \<longleftrightarrow>
     (\<exists>d n k. fl = Inr (JObj d) \<and> map_of d (KStr ''name'') = Some n \<and> as_key n = Inr k \<and>
        servers' = setitem k (without_name d) servers)"
proof (cases fl)
  case (Inl e)
  then show ?thesis by (simp add: load_file_def)
next
  case (Inr data)
  show ?thesis
  proof (cases data)
    case (JObj d)
    then show ?thesis using Inr
      by (auto simp: load_file_def and_then_eq_Inr without_name_def split: option.splits)
  qed (simp_all add: Inr load_file_def)
qed

lemma load_file_no_name:
  "map_of d (KStr ''name'') = None \<Longrightarrow> load_file servers (Inr (JObj d)) = Inl KeyError"
  by (simp add: load_file_def)

lemma load_loop_append:
  "load_loop (xs @ ys) servers = and_then (load_loop xs servers) (load_loop ys)"
  by (induction xs arbitrary: servers) (auto split: sum.splits)

lemma load_loop_single: "load_loop [fl] = (\<lambda>servers. load_file servers fl)"
  by (auto simp: fun_eq_iff split: sum.splits)

lemma load_loop_bad_file:
  "fl \<in> set files \<Longrightarrow> \<forall>s. \<exists>e. load_file s fl = Inl e \<Longrightarrow> \<exists>e. load_loop files servers = Inl e"
proof (induction files arbitrary: servers)
  case Nil
  then show ?case by simp
next
  case (Cons x files)
  show ?case
  proof (cases "load_file servers x")
    case (Inl e)
    then show ?thesis by simp
  next
    case (Inr s')
    have "x \<noteq> fl"
    proof
      assume "x = fl"
      then show False using Inr Cons.prems(2) by (metis sum.distinct(1))
    qed
    then have "fl \<in> set files" using Cons.prems(1) by simp
    from Cons.IH[OF this Cons.prems(2), of s'] show ?thesis using Inr by simp
  qed
qed

lemma load_loop_sources:
  "load_loop files servers = Inr loaded \<Longrightarrow> map_of loaded k = Some desc \<Longrightarrow>
   map_of servers k = Some desc \<or>
   (\<exists>d n. Inr (JObj d) \<in> set files \<and> map_of d (KStr ''name'') = Some n \<and>
      as_key n = Inr k \<and> desc = without_name d)"
proof (induction files arbitrary: servers)
  case Nil
  then show ?case by simp
next
  case (Cons x files)
  from Cons.prems(1) obtain s' where s': "load_file servers x = Inr s'"
    and rest: "load_loop files s' = Inr loaded"
    by (auto split: sum.splits)
  from s' obtain d n k' where x: "x = Inr (JObj d)" and n: "map_of d (KStr ''name'') = Some n"
    and k': "as_key n = Inr k'" and upd: "s' = setitem k' (without_name d) servers"
    by (auto simp: load_file_Inr)
  from Cons.IH[OF rest Cons.prems(2)] show ?case
  proof
    assume "map_of s' k = Some desc"
    then show ?thesis using upd x n k'
      by (cases "k = k'") (auto simp: map_of_setitem)
  next
    assume "\<exists>d n. Inr (JObj d) \<in> set files \<and> map_of d (KStr ''name'') = Some n \<and>
      as_key n = Inr k \<and> desc = without_name d"
    then show ?thesis by auto
  qed
qed

text \<open>
  Claim C8. When a descriptor file is a mapping without the key \<open>name\<close>, the loader
  raises and returns no mapping, and the whole run ends with an error; when the files
  before it load, the error is the \<open>KeyError\<close> of the lookup. When the loader returns,
  every descriptor it stores under a key is a document of a file that has that name,
  with every item of the document except \<open>name\<close>, unchanged and in order; and the
  document of the last file is stored under its name in this form.
\<close>

theorem load_yaml_descriptors_name:
  "(Inr (JObj d) \<in> set files \<and> map_of d (KStr ''name'') = None \<longrightarrow>
      (\<exists>e. load_yaml_descriptors (Some files) = Inl e) \<and>
      (env_base ev = Some files \<longrightarrow> (\<exists>e. main ev ar = Inl e))) \<and>
   (load_loop good [] = Inr servers \<and> map_of d (KStr ''name'') = None \<longrightarrow>
      load_yaml_descriptors (Some (good @ Inr (JObj d) # rest)) = Inl KeyError) \<and>
   (load_yaml_descriptors (Some files) = Inr loaded \<and> map_of loaded k = Some desc \<longrightarrow>
      (\<exists>d' n. Inr (JObj d') \<in> set files \<and> map_of d' (KStr ''name'') = Some n \<and>
         as_key n = Inr k \<and> desc = JObj (filter (\<lambda>(k', v). k' \<noteq> KStr ''name'') d'))) \<and>
   (load_yaml_descriptors (Some (files @ [Inr (JObj d)])) = Inr loaded \<longrightarrow>
      (\<exists>n k'. map_of d (KStr ''name'') = Some n \<and> as_key n = Inr k' \<and>
         map_of loaded k' = Some (JObj (filter (\<lambda>(k', v). k' \<noteq> KStr ''name'') d))))"
proof (intro conjI impI)
  assume a: "Inr (JObj d) \<in> set files \<and> map_of d (KStr ''name'') = None"
  then have "\<forall>s. \<exists>e. load_file s (Inr (JObj d)) = Inl e" by (simp add: load_file_no_name)
  with a show l: "\<exists>e. load_yaml_descriptors (Some files) = Inl e"
    using load_loop_bad_file[of "Inr (JObj d)" files "[]"]
    by (simp add: load_yaml_descriptors_def)
  assume "env_base ev = Some files"
  with l obtain e where e: "load_yaml_descriptors (env_base ev) = Inl e" by auto
  show "\<exists>e. main ev ar = Inl e"
  proof (cases "find_binaries (env_path ev) (env_fs ev)")
    case (Inl e')
    then show ?thesis by (simp add: main_def discover_def)
  next
    case (Inr found)
    then show ?thesis using e by (simp add: main_def discover_def)
  qed
next
  assume "load_loop good [] = Inr servers \<and> map_of d (KStr ''name'') = None"
  then show "load_yaml_descriptors (Some (good @ Inr (JObj d) # rest)) = Inl KeyError"
    by (simp add: load_yaml_descriptors_def load_loop_append load_file_no_name)
next
  assume "load_yaml_descriptors (Some files) = Inr loaded \<and> map_of loaded k = Some desc"
  then show "\<exists>d' n. Inr (JObj d') \<in> set files \<and> map_of d' (KStr ''name'') = Some n \<and>
         as_key n = Inr k \<and> desc = JObj (filter (\<lambda>(k', v). k' \<noteq> KStr ''name'') d')"
    using load_loop_sources[of files "[]" loaded k desc]
    by (simp add: load_yaml_descriptors_def without_name_def)
next
  assume "load_yaml_descriptors (Some (files @ [Inr (JObj d)])) = Inr loaded"
  moreover have "load_loop (files @ [Inr (JObj d)]) [] =
      and_then (load_loop files []) (\<lambda>s. load_file s (Inr (JObj d)))"
    by (simp only: load_loop_append load_loop_single)
  ultimately obtain s where "load_file s (Inr (JObj d)) = Inr loaded"
    by (auto simp: load_yaml_descriptors_def and_then_eq_Inr)
  then show "\<exists>n k'. map_of d (KStr ''name'') = Some n \<and> as_key n = Inr k' \<and>
         map_of loaded k' = Some (JObj (filter (\<lambda>(k', v). k' \<noteq> KStr ''name'') d))"
    by (auto simp: load_file_Inr map_of_setitem without_name_def)
qed

theorem load_yaml_descriptors_name_witness:
  "load_yaml_descriptors
     (Some [Inr (JObj [(KStr ''name'', JStr ''sentry''), (KStr ''type'', JStr ''remote'')]),
            Inr (JObj [(KStr ''type'', JStr ''remote'')])]) = Inl KeyError \<and>
   (\<exists>e. main (env_example\<lparr>env_base :=
            Some [Inr (JObj [(KStr ''name'', JStr ''sentry''), (KStr ''type'', JStr ''remote'')]),
                  Inr (JObj [(KStr ''type'', JStr ''remote'')])]\<rparr>) args_example = Inl e) \<and>
   load_yaml_descriptors
     (Some [Inr (JObj [(KStr ''name'', JStr ''sentry''), (KStr ''type'', JStr ''remote'')])]) =
     Inr [(KStr ''sentry'', JObj [(KStr ''type'', JStr ''remote'')])]"
  using load_yaml_descriptors_name
     [of "[(KStr ''type'', JStr ''remote'')]"
         "[Inr (JObj [(KStr ''name'', JStr ''sentry''), (KStr ''type'', JStr ''remote'')]),
           Inr (JObj [(KStr ''type'', JStr ''remote'')])]"
         "env_example\<lparr>env_base :=
            Some [Inr (JObj [(KStr ''name'', JStr ''sentry''), (KStr ''type'', JStr ''remote'')]),
                  Inr (JObj [(KStr ''type'', JStr ''remote'')])]\<rparr>"
         args_example
         "[Inr (JObj [(KStr ''name'', JStr ''sentry''), (KStr ''type'', JStr ''remote'')])]"
         "[(KStr ''sentry'', JObj [(KStr ''type'', JStr ''remote'')])]"
         "[]"
         "[(KStr ''sentry'', JObj [(KStr ''type'', JStr ''remote'')])]"
         "KStr ''sentry''"
         "JObj [(KStr ''type'', JStr ''remote'')]"]
  by (simp add: load_yaml_descriptors_def load_file_def)

subsection \<open>The scanner: entries\<close>

lemma is_file_True: "is_file st = Inr b \<Longrightarrow> b \<longleftrightarrow> st = Regular"
  by (cases st) auto

lemma is_file_not_found: "is_file st \<noteq> Inl FileNotFoundError"
  by (cases st) auto

lemma first_raise_not_found: "first_raise es \<noteq> Some FileNotFoundError"
  by (induction es) (auto simp: is_file_not_found split: sum.splits)

lemma scan_entry_eq:
  "scan_entry p servers e =
     (case is_file (entry_stat e) of
        Inl err \<Rightarrow> Inl err
      | Inr b \<Rightarrow> Inr (if qualifies e then setitem (server_name e) (scanned p e) servers
                     else servers))"
  by (cases "entry_stat e")
     (simp_all add: scan_entry_def qualifies_def server_name_def scanned_def)

lemma scan_dir_sources:
  "map_of (fst (scan_dir p es servers)) k = Some desc \<Longrightarrow>
   map_of servers k = Some desc \<or>
   (\<exists>e \<in> set es. qualifies e \<and> k = server_name e \<and> desc = scanned p e)"
proof (induction es arbitrary: servers)
  case Nil
  then show ?case by simp
next
  case (Cons e es)
  show ?case
  proof (cases "is_file (entry_stat e)")
    case (Inl err)
    then show ?thesis using Cons.prems by (simp add: scan_entry_eq)
  next
    case (Inr b)
    let ?s = "if qualifies e then setitem (server_name e) (scanned p e) servers else servers"
    have "map_of (fst (scan_dir p es ?s)) k = Some desc"
      using Cons.prems Inr by (simp add: scan_entry_eq)
    from Cons.IH[OF this]
    show ?thesis by (auto simp: map_of_setitem split: if_splits)
  qed
qed

lemma scan_dir_keeps:
  "map_of servers k \<noteq> None \<Longrightarrow> map_of (fst (scan_dir p es servers)) k \<noteq> None"
proof (induction es arbitrary: servers)
  case Nil
  then show ?case by simp
next
  case (Cons e es)
  show ?case
  proof (cases "is_file (entry_stat e)")
    case (Inl err)
    then show ?thesis using Cons.prems by (simp add: scan_entry_eq)
  next
    case (Inr b)
    let ?s = "if qualifies e then setitem (server_name e) (scanned p e) servers else servers"
    have "map_of ?s k \<noteq> None" using Cons.prems by (simp add: map_of_setitem)
    from Cons.IH[OF this] show ?thesis using Inr by (simp add: scan_entry_eq)
  qed
qed

lemma scan_dir_adds:
  "e \<in> set es \<Longrightarrow> qualifies e \<Longrightarrow> first_raise es = None \<Longrightarrow>
   map_of (fst (scan_dir p es servers)) (server_name e) \<noteq> None"
proof (induction es arbitrary: servers)
  case Nil
  then show ?case by simp
next
  case (Cons x es)
  from Cons.prems(3) obtain b where b: "is_file (entry_stat x) = Inr b"
    and rest: "first_raise es = None"
    by (auto split: sum.splits)
  let ?s = "if qualifies x then setitem (server_name x) (scanned p x) servers else servers"
  have step: "scan_dir p (x # es) servers = scan_dir p es ?s"
    using b by (simp add: scan_entry_eq)
  show ?case
  proof (cases "x = e")
    case True
    then have "map_of ?s (server_name e) \<noteq> None"
      using Cons.prems(2) by (simp add: map_of_setitem)
    then show ?thesis unfolding step by (rule scan_dir_keeps)
  next
    case False
    then have "e \<in> set es" using Cons.prems(1) by simp
    from Cons.IH[OF this Cons.prems(2) rest] show ?thesis unfolding step .
  qed
qed

lemma try_servers_sources:
  "map_of (try_servers fs p servers) k = Some desc \<Longrightarrow>
   map_of servers k = Some desc \<or>
   (\<exists>es. fs p = Dir es \<and>
      (\<exists>e \<in> set es. qualifies e \<and> k = server_name e \<and> desc = scanned p e))"
proof (cases "fs p")
  case (Dir es)
  assume "map_of (try_servers fs p servers) k = Some desc"
  then have "map_of (fst (scan_dir p es servers)) k = Some desc"
    using Dir by (simp add: try_servers_def)
  from scan_dir_sources[OF this] show ?thesis using Dir by auto
qed (simp_all add: try_servers_def)

lemma try_servers_keeps:
  "map_of servers k \<noteq> None \<Longrightarrow> map_of (try_servers fs p servers) k \<noteq> None"
  by (cases "fs p") (simp_all add: try_servers_def scan_dir_keeps)

lemma find_loop_tail:
  "find_loop fs (p # ps) servers = Inr found \<Longrightarrow>
   find_loop fs ps (try_servers fs p servers) = Inr found"
  by (auto simp: find_loop_Cons simp del: find_loop.simps split: option.splits if_splits)

lemma find_loop_sources:
  "find_loop fs ps servers = Inr found \<Longrightarrow> map_of found k = Some desc \<Longrightarrow>
   map_of servers k = Some desc \<or>
   (\<exists>p \<in> set ps. \<exists>es. fs p = Dir es \<and>
      (\<exists>e \<in> set es. qualifies e \<and> k = server_name e \<and> desc = scanned p e))"
proof (induction ps arbitrary: servers)
  case Nil
  then show ?case by simp
next
  case (Cons p ps)
  from Cons.IH[OF find_loop_tail[OF Cons.prems(1)] Cons.prems(2)]
  show ?case
  proof
    assume "map_of (try_servers fs p servers) k = Some desc"
    from try_servers_sources[OF this] show ?thesis by auto
  next
    assume "\<exists>p \<in> set ps. \<exists>es. fs p = Dir es \<and>
      (\<exists>e \<in> set es. qualifies e \<and> k = server_name e \<and> desc = scanned p e)"
    then show ?thesis by auto
  qed
qed

lemma find_loop_keeps:
  "find_loop fs ps servers = Inr found \<Longrightarrow> map_of servers k \<noteq> None \<Longrightarrow>
   map_of found k \<noteq> None"
proof (induction ps arbitrary: servers)
  case Nil
  then show ?case by simp
next
  case (Cons p ps)
  from Cons.IH[OF find_loop_tail[OF Cons.prems(1)] try_servers_keeps[OF Cons.prems(2)]]
  show ?case .
qed

lemma find_loop_listed:
  assumes "find_loop fs ps servers = Inr found" and "p \<in> set ps" and "fs p = Dir es"
  shows "first_raise es = None"
proof -
  have "try_error (fs p) = None \<or> try_error (fs p) = Some FileNotFoundError"
    using assms(1,2) find_loop_Inr_iff[of fs ps servers] by blast
  then show ?thesis using assms(3) first_raise_not_found[of es] by (simp add: try_error_def)
qed

lemma find_loop_adds:
  "find_loop fs ps servers = Inr found \<Longrightarrow> p \<in> set ps \<Longrightarrow> fs p = Dir es \<Longrightarrow>
   e \<in> set es \<Longrightarrow> qualifies e \<Longrightarrow> map_of found (server_name e) \<noteq> None"
proof (induction ps arbitrary: servers)
  case Nil
  then show ?case by simp
next
  case (Cons q ps)
  note tail = find_loop_tail[OF Cons.prems(1)]
  show ?case
  proof (cases "q = p")
    case True
    have "first_raise es = None"
      using find_loop_listed[OF Cons.prems(1) Cons.prems(2) Cons.prems(3)] .
    then have "map_of (try_servers fs q servers) (server_name e) \<noteq> None"
      using True Cons.prems(3,4,5) by (simp add: try_servers_def scan_dir_adds)
    then show ?thesis using tail by (rule find_loop_keeps[rotated])
  next
    case False
    then have "p \<in> set ps" using Cons.prems(2) by simp
    from Cons.IH[OF tail this Cons.prems(3,4,5)] show ?thesis .
  qed
qed

lemma find_loop_append:
  "find_loop fs (xs @ ys) servers = and_then (find_loop fs xs servers) (find_loop fs ys)"
proof (induction xs arbitrary: servers)
  case Nil
  show ?case by simp
next
  case (Cons p xs)
  show ?case
    by (simp add: find_loop_Cons Cons.IH del: find_loop.simps split: option.splits)
qed

lemma scan_dir_snoc:
  "first_raise (es @ [e]) = None \<Longrightarrow>
   fst (scan_dir p (es @ [e]) servers) =
     (if qualifies e then setitem (server_name e) (scanned p e) (fst (scan_dir p es servers))
      else fst (scan_dir p es servers))"
proof (induction es arbitrary: servers)
  case Nil
  then show ?case by (auto simp: scan_entry_eq split: sum.splits)
next
  case (Cons x es)
  from Cons.prems obtain b where b: "is_file (entry_stat x) = Inr b"
    and rest: "first_raise (es @ [e]) = None"
    by (auto split: sum.splits)
  show ?case using b Cons.IH[OF rest] by (simp add: scan_entry_eq)
qed

lemma find_loop_last:
  assumes "find_loop fs (ps @ [p]) servers = Inr found" and "fs p = Dir (es @ [e])"
    and "qualifies e"
  shows "map_of found (server_name e) = Some (scanned p e)"
proof -
  have raise: "first_raise (es @ [e]) = None"
    using find_loop_listed[OF assms(1) _ assms(2)] by simp
  from assms(1) obtain s where "find_loop fs [p] s = Inr found"
    by (auto simp: find_loop_append and_then_eq_Inr)
  from find_loop_tail[OF this] have "found = try_servers fs p s" by simp
  then have "found = fst (scan_dir p (es @ [e]) s)"
    using assms(2) by (simp add: try_servers_def)
  then show ?thesis using assms(3) scan_dir_snoc[OF raise, of p s]
    by (simp add: map_of_setitem)
qed

lemma endswith_iff: "endswith s suf \<longleftrightarrow> (\<exists>pre. s = pre @ suf)"
proof
  assume e: "endswith s suf"
  have "s = take (length s - length suf) s @ drop (length s - length suf) s" by simp
  also have "drop (length s - length suf) s = suf" using e by (simp add: endswith_def)
  finally show "\<exists>pre. s = pre @ suf" ..
next
  assume "\<exists>pre. s = pre @ suf"
  then obtain pre where "s = pre @ suf" ..
  then show "endswith s suf" by (simp add: endswith_def)
qed

lemma has_suffix_iff:
  "has_suffix s \<longleftrightarrow>
     (\<exists>pre. s = pre @ ''mcp-server'') \<or> (\<exists>pre. s = pre @ ''-mcp'') \<or> (\<exists>pre. s = pre @ ''_mcp'')"
  by (simp only: has_suffix_def endswith_iff)

lemma last_butlast_iff:
  "(nm \<noteq> [] \<and> last nm = c \<and> P (butlast nm)) \<longleftrightarrow> (\<exists>s. nm = s @ [c] \<and> P s)"
  by (cases nm rule: rev_cases) auto

lemma eligible_qualifies: "eligible e \<Longrightarrow> qualifies e"
  by (simp add: eligible_def qualifies_def name_matches_def)

lemma qualifies_eligible:
  "qualifies e \<Longrightarrow> \<not> ends_with_newline (entry_name e) \<Longrightarrow> eligible e"
  by (auto simp: eligible_def qualifies_def name_matches_def ends_with_newline_def)

lemma first_raise_None:
  "\<forall>e \<in> set es. entry_stat e = Regular \<or> entry_stat e = NotRegular \<Longrightarrow> first_raise es = None"
  by (induction es) auto

text \<open>
  Claim C4, as amended. When the scan returns, every item of its mapping is, for an
  entry of a directory of the search path that is a regular file and executable, the
  name of the entry without its extension and with dashes replaced, bound to the
  descriptor of type local with the command \<open>str(entry)\<close>, no arguments and the wildcard
  tools; unless the name of the entry ends with a newline, it ends with \<open>mcp-server\<close>,
  \<open>-mcp\<close> or \<open>_mcp\<close>. Every entry that is a regular file, is executable and has a
  name with one of these suffixes has its name in the mapping, and such an entry scanned
  last is bound to its own descriptor. The command is the string of the search path
  joined with the file name: it is absolute when that string is. The scan returns when
  every string of the search path names nothing or a directory whose entries can all be
  examined.
\<close>

theorem scanner_entries:
  "(find_binaries path_var fs = Inr found \<longrightarrow>
      (\<forall>name desc. map_of found name = Some desc \<longrightarrow>
         (\<exists>p \<in> set (split_on CHR '':'' path_var). \<exists>es. fs p = Dir es \<and>
            (\<exists>e \<in> set es. entry_stat e = Regular \<and> entry_x_ok e \<and>
               (\<not> ends_with_newline (entry_name e) \<longrightarrow> has_suffix (entry_name e)) \<and>
               name = server_name e \<and> desc = scanned p e))) \<and>
      (\<forall>p \<in> set (split_on CHR '':'' path_var). \<forall>es. fs p = Dir es \<longrightarrow>
         (\<forall>e \<in> set es. eligible e \<longrightarrow> map_of found (server_name e) \<noteq> None))) \<and>
   (find_loop fs (ps @ [p]) [] = Inr found' \<and> fs p = Dir (es' @ [e]) \<and> eligible e \<longrightarrow>
      map_of found' (server_name e) = Some (scanned p e)) \<and>
   ((\<forall>p \<in> set (split_on CHR '':'' path_var). fs p = Absent \<or>
       (\<exists>es. fs p = Dir es \<and>
          (\<forall>e \<in> set es. entry_stat e = Regular \<or> entry_stat e = NotRegular))) \<longrightarrow>
      (\<exists>found. find_binaries path_var fs = Inr found)) \<and>
   (eligible e \<longleftrightarrow>
      entry_stat e = Regular \<and> entry_x_ok e \<and>
      ((\<exists>pre. entry_name e = pre @ ''mcp-server'') \<or> (\<exists>pre. entry_name e = pre @ ''-mcp'') \<or>
       (\<exists>pre. entry_name e = pre @ ''_mcp''))) \<and>
   server_name e = KStr (replace_dash (stem (entry_name e))) \<and>
   scanned p e = local_descriptor (entry_str p (entry_name e)) [] [''*'']"
proof (intro conjI impI allI ballI)
  fix name desc
  assume "find_binaries path_var fs = Inr found" and "map_of found name = Some desc"
  then obtain q es x where "q \<in> set (split_on CHR '':'' path_var)" "fs q = Dir es"
    "x \<in> set es" "qualifies x" "name = server_name x" "desc = scanned q x"
    using find_loop_sources[of fs "split_on CHR '':'' path_var" "[]" found name desc]
    by (auto simp: find_binaries_def)
  moreover from \<open>qualifies x\<close> have "entry_stat x = Regular" "entry_x_ok x"
    "\<not> ends_with_newline (entry_name x) \<longrightarrow> has_suffix (entry_name x)"
    using qualifies_eligible[of x] by (auto simp: qualifies_def eligible_def)
  ultimately show "\<exists>p \<in> set (split_on CHR '':'' path_var). \<exists>es. fs p = Dir es \<and>
            (\<exists>e \<in> set es. entry_stat e = Regular \<and> entry_x_ok e \<and>
               (\<not> ends_with_newline (entry_name e) \<longrightarrow> has_suffix (entry_name e)) \<and>
               name = server_name e \<and> desc = scanned p e)"
    by blast
next
  fix q es x
  assume "find_binaries path_var fs = Inr found" and "q \<in> set (split_on CHR '':'' path_var)"
    and "fs q = Dir es" and "x \<in> set es" and "eligible x"
  then show "map_of found (server_name x) \<noteq> None"
    using find_loop_adds[of fs "split_on CHR '':'' path_var" "[]" found q es x]
    by (simp add: find_binaries_def eligible_qualifies)
next
  assume "find_loop fs (ps @ [p]) [] = Inr found' \<and> fs p = Dir (es' @ [e]) \<and> eligible e"
  then show "map_of found' (server_name e) = Some (scanned p e)"
    using find_loop_last eligible_qualifies by blast
next
  assume a: "\<forall>p \<in> set (split_on CHR '':'' path_var). fs p = Absent \<or>
       (\<exists>es. fs p = Dir es \<and>
          (\<forall>e \<in> set es. entry_stat e = Regular \<or> entry_stat e = NotRegular))"
  have "\<forall>p \<in> set (split_on CHR '':'' path_var).
          try_error (fs p) = None \<or> try_error (fs p) = Some FileNotFoundError"
  proof
    fix q
    assume "q \<in> set (split_on CHR '':'' path_var)"
    with a have "fs q = Absent \<or>
       (\<exists>es. fs q = Dir es \<and>
          (\<forall>e \<in> set es. entry_stat e = Regular \<or> entry_stat e = NotRegular))"
      by blast
    then show "try_error (fs q) = None \<or> try_error (fs q) = Some FileNotFoundError"
      by (auto simp: try_error_def first_raise_None)
  qed
  then show "\<exists>found. find_binaries path_var fs = Inr found"
    unfolding find_binaries_def by (simp only: find_loop_Inr_iff)
next
  show "eligible e \<longleftrightarrow>
      entry_stat e = Regular \<and> entry_x_ok e \<and>
      ((\<exists>pre. entry_name e = pre @ ''mcp-server'') \<or> (\<exists>pre. entry_name e = pre @ ''-mcp'') \<or>
       (\<exists>pre. entry_name e = pre @ ''_mcp''))"
    unfolding eligible_def has_suffix_iff ..
qed (simp_all add: server_name_def scanned_def)

theorem scanner_entries_witness:
  "find_binaries ''/nonexistent:/opt/bin'' fs_example =
     Inr [(KStr ''github_mcp_server'',
           local_descriptor ''/opt/bin/github-mcp-server'' [] [''*''])] \<and>
   fs_example ''/opt/bin'' =
     Dir [\<lparr>entry_name = ''github-mcp-server'', entry_stat = Regular, entry_x_ok = True\<rparr>] \<and>
   eligible \<lparr>entry_name = ''github-mcp-server'', entry_stat = Regular, entry_x_ok = True\<rparr> \<and>
   server_name \<lparr>entry_name = ''github-mcp-server'', entry_stat = Regular, entry_x_ok = True\<rparr> =
     KStr ''github_mcp_server'' \<and>
   scanned ''/opt/bin''
     \<lparr>entry_name = ''github-mcp-server'', entry_stat = Regular, entry_x_ok = True\<rparr> =
     local_descriptor ''/opt/bin/github-mcp-server'' [] [''*'']"
  using scanner_entries
     [of "''/nonexistent:/opt/bin''" fs_example
         "[(KStr ''github_mcp_server'',
            local_descriptor ''/opt/bin/github-mcp-server'' [] [''*''])]"
         "[''/nonexistent'']" "''/opt/bin''"
         "[(KStr ''github_mcp_server'',
            local_descriptor ''/opt/bin/github-mcp-server'' [] [''*''])]"
         "[]"
         "\<lparr>entry_name = ''github-mcp-server'', entry_stat = Regular, entry_x_ok = True\<rparr>"]
  by (simp add: find_example)
     (simp add: fs_example_def eligible_def has_suffix_def endswith_def
        server_name_def scanned_def stem_def rfind_dot_def replace_dash_def entry_str_def
        path_root_def path_parts_def split_on_def)

lemma find_relative:
  "find_binaries ''bin'' fs_relative =
     Inr [(KStr ''x_mcp'', local_descriptor ''bin/x-mcp'' [] [''*''])]"
  by (simp add: find_binaries_def split_on_def fs_relative_def scan_entry_def
        name_matches_def has_suffix_def endswith_def stem_def rfind_dot_def replace_dash_def
        entry_str_def path_root_def path_parts_def)

text \<open>
  Claim C4 as stated fails for a relative string of the search path: for \<open>bin\<close> the
  command stored is \<open>bin/x-mcp\<close>, which is not an absolute path.
\<close>

theorem scanner_absolute_counterexample:
  "find_binaries ''bin'' fs_relative =
     Inr [(KStr ''x_mcp'', local_descriptor ''bin/x-mcp'' [] [''*''])] \<and>
   \<not> is_absolute ''bin/x-mcp''"
  by (simp add: find_relative is_absolute_def)

subsection \<open>The tools of a descriptor\<close>

lemma split_acc_not_Nil: "split_acc sep cur s \<noteq> []"
  by (induction s arbitrary: cur) auto

lemma tools_part_not_Nil: "tools_part item \<noteq> []"
  by (simp add: tools_part_def Let_def split_on_def split_acc_not_Nil)

lemma tools_part_no_colon:
  "CHR '':'' \<notin> set (snd (split_first CHR ''='' item)) \<Longrightarrow> tools_part item = [''*'']"
  by (simp add: tools_part_def)

lemma parse_item_Inr:
  "parse_item servers item = Inr servers' \<Longrightarrow>
   servers' = servers \<or>
   (CHR ''='' \<in> set item \<and>
    (\<exists>c rest. servers' =
       setitem (KStr (fst (split_first CHR ''='' item)))
         (local_descriptor c rest (tools_part item)) servers))"
  by (auto simp: parse_item_def tools_part_def Let_def
           split: if_splits prod.splits list.splits)

lemma parse_loop_sources:
  "parse_loop items servers = Inr added \<Longrightarrow> map_of added name = Some desc \<Longrightarrow>
   map_of servers name = Some desc \<or>
   (\<exists>item \<in> set items. CHR ''='' \<in> set item \<and>
      name = KStr (fst (split_first CHR ''='' item)) \<and>
      (\<exists>c rest. desc = local_descriptor c rest (tools_part item)))"
proof (induction items arbitrary: servers)
  case Nil
  then show ?case by simp
next
  case (Cons item items)
  from Cons.prems(1) obtain s' where s': "parse_item servers item = Inr s'"
    and rest: "parse_loop items s' = Inr added"
    by (auto split: sum.splits)
  from Cons.IH[OF rest Cons.prems(2)] show ?case
  proof
    assume m: "map_of s' name = Some desc"
    from parse_item_Inr[OF s'] show ?thesis
    proof
      assume "s' = servers"
      then show ?thesis using m by simp
    next
      assume "CHR ''='' \<in> set item \<and>
        (\<exists>c rest. s' = setitem (KStr (fst (split_first CHR ''='' item)))
           (local_descriptor c rest (tools_part item)) servers)"
      then obtain c rest where eq: "CHR ''='' \<in> set item"
        and upd: "s' = setitem (KStr (fst (split_first CHR ''='' item)))
           (local_descriptor c rest (tools_part item)) servers"
        by blast
      show ?thesis
      proof (cases "name = KStr (fst (split_first CHR ''='' item))")
        case True
        then have "desc = local_descriptor c rest (tools_part item)"
          using m upd by (simp add: map_of_setitem)
        then have "\<exists>c rest. desc = local_descriptor c rest (tools_part item)" by blast
        then show ?thesis using True eq by auto
      next
        case False
        then show ?thesis using m upd by (simp add: map_of_setitem)
      qed
    qed
  next
    assume "\<exists>item \<in> set items. CHR ''='' \<in> set item \<and>
      name = KStr (fst (split_first CHR ''='' item)) \<and>
      (\<exists>c rest. desc = local_descriptor c rest (tools_part item))"
    then show ?thesis by auto
  qed
qed

lemma map_of_without_name:
  "k \<noteq> KStr ''name'' \<Longrightarrow>
   map_of (filter (\<lambda>(k', v). k' \<noteq> KStr ''name'') d) k = map_of d k"
  by (induction d) auto

lemma tools_of_local_descriptor:
  "local_descriptor c rest tools = JObj d \<Longrightarrow>
   map_of d (KStr ''tools'') = Some (JList (map JStr tools))"
  by (auto simp: local_descriptor_def)

text \<open>
  Claim C3, as amended. Every descriptor that the scanner produces has the tools
  \<open>["*"]\<close>. Every descriptor that the parser of explicit entries produces has a
  non-empty list of tools, the one read from an entry of that name, and this list is
  \<open>["*"]\<close> when the entry has no colon after its equals sign. A descriptor that the
  loader of descriptor files produces comes from a file of that name and has the field
  \<open>tools\<close> exactly when the file has it, with the value of the file: the loader adds
  no default.
\<close>

theorem tools_field:
  "(find_binaries path_var fs = Inr found \<and> map_of found name = Some desc \<longrightarrow>
      (\<exists>d. desc = JObj d \<and> map_of d (KStr ''tools'') = Some (JList [JStr ''*'']))) \<and>
   (parse_add_flags add_list = Inr added \<and> map_of added name = Some desc \<longrightarrow>
      (\<exists>item \<in> set add_list. CHR ''='' \<in> set item \<and>
         name = KStr (fst (split_first CHR ''='' item)) \<and>
         (\<exists>d. desc = JObj d \<and>
            map_of d (KStr ''tools'') = Some (JList (map JStr (tools_part item)))) \<and>
         tools_part item \<noteq> [] \<and>
         (CHR '':'' \<notin> set (snd (split_first CHR ''='' item)) \<longrightarrow> tools_part item = [''*'']))) \<and>
   (load_yaml_descriptors (Some files) = Inr loaded \<and> map_of loaded name = Some desc \<longrightarrow>
      (\<exists>d n dd. Inr (JObj d) \<in> set files \<and> map_of d (KStr ''name'') = Some n \<and>
         as_key n = Inr name \<and> desc = JObj dd \<and>
         map_of dd (KStr ''tools'') = map_of d (KStr ''tools'')))"
proof (intro conjI impI)
  assume "find_binaries path_var fs = Inr found \<and> map_of found name = Some desc"
  then have "\<exists>p e. desc = scanned p e"
    using find_loop_sources[of fs "split_on CHR '':'' path_var" "[]" found name desc]
    by (auto simp: find_binaries_def)
  then show "\<exists>d. desc = JObj d \<and> map_of d (KStr ''tools'') = Some (JList [JStr ''*''])"
    by (auto simp: scanned_def local_descriptor_def)
next
  assume "parse_add_flags add_list = Inr added \<and> map_of added name = Some desc"
  then obtain item c rest where "item \<in> set add_list" "CHR ''='' \<in> set item"
    "name = KStr (fst (split_first CHR ''='' item))"
    "desc = local_descriptor c rest (tools_part item)"
    using parse_loop_sources[of add_list "[]" added name desc]
    by (auto simp: parse_add_flags_def)
  then show "\<exists>item \<in> set add_list. CHR ''='' \<in> set item \<and>
         name = KStr (fst (split_first CHR ''='' item)) \<and>
         (\<exists>d. desc = JObj d \<and>
            map_of d (KStr ''tools'') = Some (JList (map JStr (tools_part item)))) \<and>
         tools_part item \<noteq> [] \<and>
         (CHR '':'' \<notin> set (snd (split_first CHR ''='' item)) \<longrightarrow> tools_part item = [''*''])"
    using tools_part_not_Nil[of item] tools_part_no_colon[of item]
    by (intro bexI[of _ item]) (simp_all add: local_descriptor_def)
next
  assume "load_yaml_descriptors (Some files) = Inr loaded \<and> map_of loaded name = Some desc"
  then obtain d n where "Inr (JObj d) \<in> set files" "map_of d (KStr ''name'') = Some n"
    "as_key n = Inr name" "desc = without_name d"
    using load_loop_sources[of files "[]" loaded name desc]
    by (auto simp: load_yaml_descriptors_def)
  then show "\<exists>d n dd. Inr (JObj d) \<in> set files \<and> map_of d (KStr ''name'') = Some n \<and>
         as_key n = Inr name \<and> desc = JObj dd \<and>
         map_of dd (KStr ''tools'') = map_of d (KStr ''tools'')"
    by (auto simp: without_name_def map_of_without_name)
qed

theorem tools_field_witness:
  "find_binaries ''/nonexistent:/opt/bin'' fs_example =
     Inr [(KStr ''github_mcp_server'',
           local_descriptor ''/opt/bin/github-mcp-server'' [] [''*''])] \<and>
   parse_add_flags [''sentry=npx @sentry/mcp-server@latest:*'', ''x=run foo''] =
     Inr [(KStr ''sentry'', local_descriptor ''npx'' [''@sentry/mcp-server@latest''] [''*'']),
          (KStr ''x'', local_descriptor ''run'' [''foo''] [''*''])] \<and>
   tools_part ''x=run foo'' = [''*''] \<and>
   load_yaml_descriptors
     (Some [Inr (JObj [(KStr ''name'', JStr ''s''), (KStr ''tools'', JList [JStr ''read''])])]) =
     Inr [(KStr ''s'', JObj [(KStr ''tools'', JList [JStr ''read''])])]"
  using tools_field
     [of "''/nonexistent:/opt/bin''" fs_example
         "[(KStr ''github_mcp_server'',
            local_descriptor ''/opt/bin/github-mcp-server'' [] [''*''])]"
         "KStr ''github_mcp_server''"
         "local_descriptor ''/opt/bin/github-mcp-server'' [] [''*'']"]
        tools_field
     [of _ _ _ "KStr ''x''" "local_descriptor ''run'' [''foo''] [''*'']"
         "[''sentry=npx @sentry/mcp-server@latest:*'', ''x=run foo'']"
         "[(KStr ''sentry'', local_descriptor ''npx'' [''@sentry/mcp-server@latest''] [''*'']),
           (KStr ''x'', local_descriptor ''run'' [''foo''] [''*''])]"]
        tools_field
     [of _ _ _ "KStr ''s''" "JObj [(KStr ''tools'', JList [JStr ''read''])]" _ _
         "[Inr (JObj [(KStr ''name'', JStr ''s''), (KStr ''tools'', JList [JStr ''read''])])]"
         "[(KStr ''s'', JObj [(KStr ''tools'', JList [JStr ''read''])])]"]
  by (simp add: find_example)
     (simp add: parse_add_flags_def parse_item_def split_first_def split_ws_def is_space_def
        tools_part_def load_yaml_descriptors_def load_file_def)

text \<open>
  Claim C3 as stated fails for descriptor files: in the example run the two files have
  the keys \<open>name\<close>, \<open>type\<close> and \<open>url\<close>, and the descriptor of
  \<open>github_mcp_server\<close> in the discovered mapping has no field \<open>tools\<close>.
\<close>

theorem tools_always_present_counterexample:
  "load_yaml_descriptors (env_base env_example) =
     Inr [(KStr ''github_mcp_server'',
           JObj [(KStr ''type'', JStr ''remote''), (KStr ''url'', JStr ''https://example.org/github'')]),
          (KStr ''sentry'',
           JObj [(KStr ''type'', JStr ''remote''), (KStr ''url'', JStr ''https://example.org/sentry'')])] \<and>
   discover env_example args_example =
     Inr [(KStr ''github_mcp_server'',
           JObj [(KStr ''type'', JStr ''remote''), (KStr ''url'', JStr ''https://example.org/github'')]),
          (KStr ''sentry'', local_descriptor ''npx'' [''@sentry/mcp-server@latest''] [''*''])] \<and>
   map_of [(KStr ''type'', JStr ''remote''), (KStr ''url'', JStr ''https://example.org/github'')]
     (KStr ''tools'') = None"
  by (simp add: load_example discover_example)

end
